theory Spec2Isabelle
  imports Complex_Main "HOL-Library.Char_ord" "HOL-Library.List_Lexorder" "HOL-Library.Multiset"
begin

section \<open>Strings and the storage engine's LIKE operator\<close>

text \<open>
  A string is a list of characters. ASCII text is modelled exactly; outside ASCII one
  \<open>char\<close> stands for one character of the text (LIKE's \<open>_\<close> consumes one
  character, and the engine folds case for the 26 ASCII letters only).

  \<open>src/index.js\<close> never matches text itself: \<open>search\<close>, \<open>think\<close> and \<open>query\<close>
  hand a pattern to SQLite's \<open>LIKE\<close>. The operator is written out here as the engine
  defines it: \<open>%\<close> matches any run of characters, \<open>_\<close> matches exactly one character,
  every other pattern character matches itself or its other-case ASCII form. No statement
  of the source has an ESCAPE clause or sets \<open>case_sensitive_like\<close>.
\<close>

definition ascii_letters :: "(char \<times> char) list" where
  "ascii_letters = zip ''ABCDEFGHIJKLMNOPQRSTUVWXYZ'' ''abcdefghijklmnopqrstuvwxyz''"

definition ascii_lower :: "char \<Rightarrow> char" where
  "ascii_lower c = (case map_of ascii_letters c of None \<Rightarrow> c | Some l \<Rightarrow> l)"

definition like_char :: "char \<Rightarrow> char \<Rightarrow> bool" where
  "like_char p c \<longleftrightarrow> ascii_lower p = ascii_lower c"

fun like :: "string \<Rightarrow> string \<Rightarrow> bool" where
  "like [] s = (s = [])"
| "like (p # ps) [] = (p = CHR ''%'' \<and> like ps [])"
| "like (p # ps) (c # cs) =
     (if p = CHR ''%'' then like ps (c # cs) \<or> like (p # ps) cs
      else (p = CHR ''_'' \<or> like_char p c) \<and> like ps cs)"

text \<open>A column that holds NULL makes \<open>col LIKE ?\<close> NULL, which a WHERE clause drops.\<close>

definition like_null :: "string \<Rightarrow> string option \<Rightarrow> bool" where
  "like_null pat col = (case col of None \<Rightarrow> False | Some s \<Rightarrow> like pat s)"

text \<open>JavaScript's \<open>s.includes(t)\<close>: \<open>t\<close> occurs in \<open>s\<close>, character for character.\<close>

fun startsWith :: "string \<Rightarrow> string \<Rightarrow> bool" where
  "startsWith s [] = True"
| "startsWith [] (t # ts) = False"
| "startsWith (c # cs) (t # ts) = (c = t \<and> startsWith cs ts)"

fun includes_str :: "string \<Rightarrow> string \<Rightarrow> bool" where
  "includes_str [] t = (t = [])"
| "includes_str (c # cs) t = (startsWith (c # cs) t \<or> includes_str cs t)"

text \<open>The same occurrence test up to ASCII case, for stating what LIKE computes.\<close>

fun startsWith_nocase :: "string \<Rightarrow> string \<Rightarrow> bool" where
  "startsWith_nocase s [] = True"
| "startsWith_nocase [] (t # ts) = False"
| "startsWith_nocase (c # cs) (t # ts) = (like_char t c \<and> startsWith_nocase cs ts)"

fun includes_nocase :: "string \<Rightarrow> string \<Rightarrow> bool" where
  "includes_nocase [] t = (t = [])"
| "includes_nocase (c # cs) t = (startsWith_nocase (c # cs) t \<or> includes_nocase cs t)"

definition wildcard_free :: "string \<Rightarrow> bool" where
  "wildcard_free t \<longleftrightarrow> CHR ''%'' \<notin> set t \<and> CHR ''_'' \<notin> set t"

section \<open>JavaScript helpers\<close>

text \<open>
  \<open>rows.sort((a, b) => b.k - a.k)\<close> orders by descending key and is stable: rows with
  equal keys keep the order they had. The same function stands for the engine's
  \<open>ORDER BY created_at DESC\<close>, where SQLite leaves the order of equal timestamps open;
  no theorem below depends on how ties fall.
\<close>

fun insort_desc :: "('a \<Rightarrow> 'k::linorder) \<Rightarrow> 'a \<Rightarrow> 'a list \<Rightarrow> 'a list" where
  "insort_desc f x [] = [x]"
| "insort_desc f x (y # ys) = (if f y \<le> f x then x # y # ys else y # insort_desc f x ys)"

fun sort_desc :: "('a \<Rightarrow> 'k::linorder) \<Rightarrow> 'a list \<Rightarrow> 'a list" where
  "sort_desc f [] = []"
| "sort_desc f (x # xs) = insort_desc f x (sort_desc f xs)"

text \<open>
  \<open>new Set([...])\<close> and the keys of \<open>new Map([...])\<close> keep the first occurrence of
  every key, in insertion order.
\<close>

fun js_set :: "'a list \<Rightarrow> 'a list" where
  "js_set [] = []"
| "js_set (x # xs) = x # js_set (filter (\<lambda>y. y \<noteq> x) xs)"

text \<open>
  \<open>new Map(pairs).get(k)\<close> and \<open>Object.fromEntries(pairs)[k]\<close>: the value of the last
  pair with key \<open>k\<close>, or undefined.
\<close>

definition js_get :: "('k \<times> 'v) list \<Rightarrow> 'k \<Rightarrow> 'v option" where
  "js_get pairs k = map_of (rev pairs) k"

text \<open>
  \<open>String.prototype.trim\<close> strips white space and line terminators at both ends;
  these are the ones a \<open>char\<close> can hold (tab, LF, VT, FF, CR, space, NBSP).
\<close>

definition js_whitespace :: "char \<Rightarrow> bool" where
  "js_whitespace c \<longleftrightarrow> of_char c \<in> {9, 10, 11, 12, 13, 32, 160 :: nat}"

definition trim :: "string \<Rightarrow> string" where
  "trim s = rev (dropWhile js_whitespace (rev (dropWhile js_whitespace s)))"

text \<open>
  \<open>JSON.stringify\<close> on an array of strings, the form the \<open>tags\<close> column holds:
  elements in double quotes, separated by commas, in brackets; inside an element the
  double quote and the backslash are escaped, control characters are written
  \<open>\b \t \n \f \r\<close> or \<open>\u00XX\<close>.
\<close>

definition dquote :: char where
  "dquote = CHR 0x22"

definition backslash :: char where
  "backslash = CHR 0x5C"

definition hex_digit :: "nat \<Rightarrow> char" where
  "hex_digit n = ''0123456789abcdef'' ! (n mod 16)"

definition json_escape :: "char \<Rightarrow> string" where
  "json_escape c =
     (if c = dquote then [backslash, dquote]
      else if c = backslash then [backslash, backslash]
      else if c = CHR 0x08 then [backslash, CHR ''b'']
      else if c = CHR 0x09 then [backslash, CHR ''t'']
      else if c = CHR 0x0A then [backslash, CHR ''n'']
      else if c = CHR 0x0C then [backslash, CHR ''f'']
      else if c = CHR 0x0D then [backslash, CHR ''r'']
      else if (of_char c :: nat) < 32
        then [backslash, CHR ''u'', CHR ''0'', CHR ''0'',
              hex_digit (of_char c div 16), hex_digit (of_char c)]
      else [c])"

definition JSON_stringify_string :: "string \<Rightarrow> string" where
  "JSON_stringify_string s = dquote # concat (map json_escape s) @ [dquote]"

fun join_comma :: "string list \<Rightarrow> string" where
  "join_comma [] = []"
| "join_comma [x] = x"
| "join_comma (x # y # ys) = x @ CHR '','' # join_comma (y # ys)"

definition JSON_stringify :: "string list \<Rightarrow> string" where
  "JSON_stringify ts = CHR ''['' # join_comma (map JSON_stringify_string ts) @ [CHR '']'']"

section \<open>Data model\<close>

text \<open>
  A row of table \<open>intel\<close>. Column \<open>id\<close> is field \<open>entry_id\<close> (\<open>id\<close> is HOL's
  identity function). The table stores \<open>tags\<close> as \<open>JSON.stringify(tags)\<close> and every
  read path parses it back; the row keeps the list, and \<open>tags_column\<close> is the text the
  engine sees. \<open>metadata\<close> is kept as its JSON text. \<open>created_at\<close> is TEXT
  (\<open>YYYY-MM-DD HH:MM:SS\<close>), compared byte-wise as the engine compares TEXT.
\<close>

type_synonym timestamp = string

record entry =
  entry_id :: nat
  category :: string
  title :: string
  body :: "string option"
  source :: "string option"
  tags :: "string list"
  confidence :: real
  actionable :: nat
  metadata :: string
  created_at :: timestamp
  expires_at :: "string option"

definition tags_column :: "entry \<Rightarrow> string" where
  "tags_column r = JSON_stringify (tags r)"

text \<open>A row of table \<open>trades\<close>; column \<open>id\<close> is \<open>trade_id\<close>, \<open>metadata\<close> is \<open>trade_metadata\<close>.\<close>

record trade =
  trade_id :: nat
  ticker :: string
  series_ticker :: "string option"
  direction :: string
  contracts :: int
  entry_price :: real
  exit_price :: "real option"
  thesis :: "string option"
  outcome :: "string option"
  pnl_cents :: "int option"
  placed_at :: timestamp
  resolved_at :: "timestamp option"
  trade_metadata :: string

text \<open>
  Every exception the source raises is \<open>new Error(message)\<close>: an object whose \<open>name\<close>
  is \<open>Error\<close>. Errors of the engine and of a caller's \<open>embedFn\<close> carry names of their
  own.
\<close>

record js_error =
  err_name :: string
  message :: string

definition Error :: "string \<Rightarrow> js_error" where
  "Error msg = \<lparr>err_name = ''Error'', message = msg\<rparr>"

definition SqliteError :: "string \<Rightarrow> js_error" where
  "SqliteError msg = \<lparr>err_name = ''SqliteError'', message = msg\<rparr>"

text \<open>
  The embedding gateway. A vector is its list of components (the rounding of
  \<open>Float32Array\<close> is not modelled). \<open>remote\<close> stands for the network: the POST to
  the provider's URL with the configured key and model, the \<open>res.ok\<close> test and the
  parse of the reply. \<open>openai\<close>'s request body carries no input type.
\<close>

type_synonym vector = "real list"

datatype input_type = Document | Query

record embedding_config =
  provider :: "string option"
  embedFn :: "(string list \<Rightarrow> input_type \<Rightarrow> js_error + vector list) option"
  remote :: "string \<Rightarrow> string list \<Rightarrow> input_type option \<Rightarrow> js_error + vector list"

text \<open>
  The open database with the instance fields of \<open>OpenIntel\<close>. Tables are their rows in
  rowid order; \<open>intel_seq\<close> and \<open>trades_seq\<close> are the AUTOINCREMENT counters
  (\<open>sqlite_sequence\<close>). \<open>intel_vec\<close> is the \<open>vec0\<close> table, \<open>vec_distance\<close> the
  metric of the extension (a distance, never negative). \<open>vec_width\<close> is the width of
  the \<open>embedding\<close> column as the table was created, or nothing while the table does not
  exist: \<open>CREATE VIRTUAL TABLE IF NOT EXISTS\<close> keeps the width of an existing table, so
  it may differ from \<open>dimensions\<close>, the field of the instance.
\<close>

record store =
  embeddingConfig :: "embedding_config option"
  dimensions :: nat
  vecLoaded :: bool
  vec_distance :: "vector \<Rightarrow> vector \<Rightarrow> real"
  intel :: "entry list"
  intel_seq :: nat
  intel_vec :: "(nat \<times> vector) list"
  vec_width :: "nat option"
  trades_tbl :: "trade list"
  trades_seq :: nat

text \<open>AUTOINCREMENT: one more than the largest rowid the table ever held.\<close>

definition next_rowid :: "nat \<Rightarrow> nat list \<Rightarrow> nat" where
  "next_rowid seq ids = Suc (fold max ids seq)"

section \<open>Embedding gateway and vector index\<close>

text \<open>
  \<open>_embed(texts, inputType = 'document')\<close>. The provider is looked up in an object
  literal with the keys \<open>voyage\<close>, \<open>openai\<close> and \<open>cohere\<close>. A name that is a property
  of \<open>Object.prototype\<close> finds that property, passes the \<open>!prov\<close> test and fails when
  the request is built, with a \<open>TypeError\<close>; every other name is refused by the test.
\<close>

definition object_prototype_names :: "string list" where
  "object_prototype_names =
     [''constructor'', ''__defineGetter__'', ''__defineSetter__'', ''hasOwnProperty'',
      ''__lookupGetter__'', ''__lookupSetter__'', ''isPrototypeOf'', ''propertyIsEnumerable'',
      ''toString'', ''valueOf'', ''__proto__'', ''toLocaleString'']"

definition show_provider :: "string option \<Rightarrow> string" where
  "show_provider p = (case p of None \<Rightarrow> ''undefined'' | Some n \<Rightarrow> n)"

definition embed :: "embedding_config option \<Rightarrow> string list \<Rightarrow> input_type \<Rightarrow> js_error + vector list" where
  "embed cfg texts inputType =
     (case cfg of
        None \<Rightarrow> Inl (Error ''No embedding provider configured'')
      | Some c \<Rightarrow>
          (case (if provider c = Some ''custom'' then embedFn c else None) of
             Some f \<Rightarrow> f texts inputType
           | None \<Rightarrow>
               if provider c = Some ''voyage'' then remote c ''voyage'' texts (Some inputType)
               else if provider c = Some ''openai'' then remote c ''openai'' texts None
               else if provider c = Some ''cohere'' then remote c ''cohere'' texts (Some inputType)
               else if show_provider (provider c) \<in> set object_prototype_names \<and> provider c \<noteq> None
                 then Inl \<lparr>err_name = ''TypeError'', message = ''prov.body is not a function''\<rparr>
               else Inl (Error (''Unknown embedding provider: '' @ show_provider (provider c) @
                         ''. Use 'voyage', 'openai', 'cohere', or 'custom'.''))))"

text \<open>
  \<open>const [vector] = ...\<close> and \<open>vectors[j]\<close> give undefined where the array is too
  short, and \<open>_float32Buffer(undefined)\<close> is the empty buffer.
\<close>

definition nth_opt :: "'a list \<Rightarrow> nat \<Rightarrow> 'a option" where
  "nth_opt xs j = (if j < length xs then Some (xs ! j) else None)"

definition float32Buffer :: "vector option \<Rightarrow> vector" where
  "float32Buffer arr = (case arr of None \<Rightarrow> [] | Some v \<Rightarrow> v)"

text \<open>
  The \<open>vec0\<close> table \<open>intel_vec(intel_id INTEGER PRIMARY KEY, embedding float[width])\<close>.
  It refuses a vector whose length is not the width it was created with and, on a plain
  INSERT, a key it already holds; \<open>INSERT OR REPLACE\<close> replaces the row of the key. The
  messages of the engine's errors are placeholders. A nearest-neighbour query returns
  the \<open>k\<close> rows closest to the query vector, in ascending distance.
\<close>

definition fits :: "store \<Rightarrow> vector \<Rightarrow> bool" where
  "fits st v \<longleftrightarrow> vec_width st = Some (length v)"

definition vec_insert :: "store \<Rightarrow> nat \<Rightarrow> vector \<Rightarrow> js_error + store" where
  "vec_insert st i v =
     (if \<not> fits st v then Inl (SqliteError ''Dimension mismatch'')
      else if i \<in> fst ` set (intel_vec st) then Inl (SqliteError ''UNIQUE constraint failed'')
      else Inr (st\<lparr>intel_vec := intel_vec st @ [(i, v)]\<rparr>))"

definition vec_insert_or_replace :: "store \<Rightarrow> nat \<Rightarrow> vector \<Rightarrow> js_error + store" where
  "vec_insert_or_replace st i v =
     (if \<not> fits st v then Inl (SqliteError ''Dimension mismatch'')
      else Inr (st\<lparr>intel_vec := filter (\<lambda>row. fst row \<noteq> i) (intel_vec st) @ [(i, v)]\<rparr>))"

definition vec_match :: "store \<Rightarrow> vector \<Rightarrow> nat \<Rightarrow> js_error + (nat \<times> real) list" where
  "vec_match st q k =
     (if \<not> fits st q then Inl (SqliteError ''Dimension mismatch'')
      else Inr (take k (sort_key snd (map (\<lambda>row. (fst row, vec_distance st q (snd row))) (intel_vec st)))))"

section \<open>Intel operations\<close>

record add_data =
  data_title :: "string option"
  data_body :: "string option"
  data_source :: "string option"
  data_tags :: "string list option"
  data_confidence :: "real option"
  data_actionable :: "bool option"
  data_metadata :: "string option"
  data_expires_at :: "string option"

text \<open>\<open>x || null\<close> and \<open>x || ''\<close> on an optional string: the empty string is falsy.\<close>

definition or_null :: "string option \<Rightarrow> string option" where
  "or_null x = (case x of None \<Rightarrow> None | Some s \<Rightarrow> if s = [] then None else Some s)"

definition or_empty :: "string option \<Rightarrow> string" where
  "or_empty x = (case x of None \<Rightarrow> [] | Some s \<Rightarrow> s)"

definition or_default :: "'a \<Rightarrow> 'a option \<Rightarrow> 'a" where
  "or_default d x = (case x of None \<Rightarrow> d | Some v \<Rightarrow> v)"

text \<open>The text that is embedded for an entry: \<open>`${title}. ${body || ''}`.trim()\<close>.\<close>

definition embed_text :: "string \<Rightarrow> string option \<Rightarrow> string" where
  "embed_text t b = trim (t @ ''. '' @ or_empty b)"

text \<open>
  \<open>add(category, data)\<close>; \<open>now\<close> is the engine's \<open>datetime('now')\<close> at the INSERT.
  The result pairs what the caller gets (the id, or the error thrown) with the store
  afterwards.
\<close>

definition add :: "store \<Rightarrow> timestamp \<Rightarrow> string \<Rightarrow> add_data \<Rightarrow> (js_error + nat) \<times> store" where
  "add st now cat data =
     (case or_null (data_title data) of
        None \<Rightarrow> (Inl (Error ''title is required''), st)
      | Some t \<Rightarrow>
          let i = next_rowid (intel_seq st) (map entry_id (intel st));
              row = \<lparr>entry_id = i, category = cat, title = t,
                     body = or_null (data_body data), source = or_null (data_source data),
                     tags = or_default [] (data_tags data),
                     confidence = or_default (1 / 2) (data_confidence data),
                     actionable = (if data_actionable data = Some True then 1 else 0),
                     metadata = or_default ''{}'' (data_metadata data),
                     created_at = now, expires_at = or_null (data_expires_at data)\<rparr>;
              st1 = st\<lparr>intel := intel st @ [row], intel_seq := i\<rparr>
          in (Inr i,
              case embeddingConfig st of
                None \<Rightarrow> st1
              | Some c \<Rightarrow>
                  if \<not> vecLoaded st then st1
                  else (case embed (embeddingConfig st) [embed_text t (data_body data)] Document of
                          Inl e \<Rightarrow> st1
                        | Inr vectors \<Rightarrow>
                            (case vec_insert st1 i (float32Buffer (nth_opt vectors 0)) of
                               Inl e \<Rightarrow> st1
                             | Inr st2 \<Rightarrow> st2))))"

record query_options =
  opt_limit :: "nat option"
  opt_since :: "string option"
  opt_tag :: "string option"

text \<open>
  \<open>query(category = 'all', {limit = 20, since, tag})\<close>. Each filter is added to the
  WHERE clause only when its argument is truthy (not undefined, not the empty string).
  Here and below a limit is a count, a natural number; what the engine and
  \<open>Array.prototype.slice\<close> do with a negative or fractional limit is outside the model.
\<close>

definition tag_pattern :: "string \<Rightarrow> string" where
  "tag_pattern t = CHR ''%'' # dquote # t @ [dquote, CHR ''%'']"

definition query_where :: "string \<Rightarrow> query_options \<Rightarrow> entry \<Rightarrow> bool" where
  "query_where cat options r \<longleftrightarrow>
     (cat = [] \<or> cat = ''all'' \<or> category r = cat) \<and>
     (case or_null (opt_since options) of None \<Rightarrow> True | Some s \<Rightarrow> s \<le> created_at r) \<and>
     (case or_null (opt_tag options) of None \<Rightarrow> True | Some t \<Rightarrow> like (tag_pattern t) (tags_column r))"

definition query :: "store \<Rightarrow> string \<Rightarrow> query_options \<Rightarrow> entry list" where
  "query st cat options =
     take (or_default 20 (opt_limit options))
       (sort_desc created_at (filter (query_where cat options) (intel st)))"

text \<open>\<open>search(text, limit = 10)\<close>.\<close>

definition search_pattern :: "string \<Rightarrow> string" where
  "search_pattern text = CHR ''%'' # text @ [CHR ''%'']"

definition search_where :: "string \<Rightarrow> entry \<Rightarrow> bool" where
  "search_where pattern r \<longleftrightarrow>
     like pattern (title r) \<or> like_null pattern (body r) \<or> like_null pattern (source r)"

definition search :: "store \<Rightarrow> string \<Rightarrow> nat \<Rightarrow> entry list" where
  "search st text limit =
     take limit (sort_desc created_at (filter (search_where (search_pattern text)) (intel st)))"

text \<open>
  \<open>semantic(queryText, limit = 10)\<close>. A returned row is paired with its
  \<open>similarity\<close>. The rows are selected by the ids of \<open>vecResults\<close>, so the lookup in
  \<open>distMap\<close> always finds a distance; the fallback value is never taken. The
  statement \<open>SELECT * FROM intel WHERE id IN (...)\<close> has no ORDER BY; the model reads the
  table in rowid order, here and in \<open>think\<close>.
\<close>

definition em_dash :: string where
  "em_dash = [CHR 0xE2, CHR 0x80, CHR 0x94]"

definition similarity_of :: "(nat \<times> real) list \<Rightarrow> entry \<Rightarrow> real" where
  "similarity_of distMap r = (case js_get distMap (entry_id r) of None \<Rightarrow> 0 | Some d \<Rightarrow> 1 / (1 + d))"

definition semantic :: "store \<Rightarrow> string \<Rightarrow> nat \<Rightarrow> js_error + (entry \<times> real) list" where
  "semantic st queryText limit =
     (case embeddingConfig st of
        None \<Rightarrow> Inl (Error ''No embedding provider configured'')
      | Some c \<Rightarrow>
          if \<not> vecLoaded st
          then Inl (Error (''sqlite-vec not loaded '' @ em_dash @ '' semantic search unavailable''))
          else (case embed (embeddingConfig st) [queryText] Query of
                  Inl e \<Rightarrow> Inl e
                | Inr vectors \<Rightarrow>
                    (case vec_match st (float32Buffer (nth_opt vectors 0)) limit of
                       Inl e \<Rightarrow> Inl e
                     | Inr vecResults \<Rightarrow>
                         if vecResults = [] then Inr []
                         else let ids = map fst vecResults;
                                  rows = filter (\<lambda>r. entry_id r \<in> set ids) (intel st)
                              in Inr (sort_desc snd
                                       (map (\<lambda>r. (r, similarity_of vecResults r)) rows)))))"

text \<open>
  \<open>think(queryText, limit = 10)\<close>. The keyword statement has no ORDER BY; the model
  reads the table in rowid order. Scores are exact reals (the rounding of JavaScript's
  doubles is not modelled).
\<close>

definition think_where :: "string \<Rightarrow> entry \<Rightarrow> bool" where
  "think_where pattern r \<longleftrightarrow> like pattern (title r) \<or> like_null pattern (body r)"

definition kw_pool :: "store \<Rightarrow> string \<Rightarrow> nat \<Rightarrow> (nat \<times> real) list" where
  "kw_pool st queryText limit =
     map (\<lambda>r. (entry_id r, 3 / 10))
       (take (limit * 2) (filter (think_where (search_pattern queryText)) (intel st)))"

definition vec_pool :: "store \<Rightarrow> string \<Rightarrow> nat \<Rightarrow> (nat \<times> real) list" where
  "vec_pool st queryText limit =
     (case embeddingConfig st of
        None \<Rightarrow> []
      | Some c \<Rightarrow>
          if \<not> vecLoaded st then []
          else (case embed (embeddingConfig st) [queryText] Query of
                  Inl e \<Rightarrow> []
                | Inr vectors \<Rightarrow>
                    (case vec_match st (float32Buffer (nth_opt vectors 0)) (limit * 2) of
                       Inl e \<Rightarrow> []
                     | Inr vecResults \<Rightarrow> map (\<lambda>row. (fst row, 1 / (1 + snd row))) vecResults)))"

definition fused_score :: "(nat \<times> real) list \<Rightarrow> (nat \<times> real) list \<Rightarrow> nat \<Rightarrow> real" where
  "fused_score kwSet vecScores i =
     (let kwScore = (if js_get kwSet i \<noteq> None then 3 / 10 else 0);
          vecScore = or_default 0 (js_get vecScores i)
      in 7 / 10 * vecScore + kwScore)"

definition fuse :: "(nat \<times> real) list \<Rightarrow> (nat \<times> real) list \<Rightarrow> (nat \<times> real) list" where
  "fuse kwSet vecScores =
     map (\<lambda>i. (i, fused_score kwSet vecScores i)) (js_set (map fst kwSet @ map fst vecScores))"

definition hybrid_score_of :: "(nat \<times> real) list \<Rightarrow> entry \<Rightarrow> real" where
  "hybrid_score_of scoreMap r = or_default 0 (js_get scoreMap (entry_id r))"

definition think :: "store \<Rightarrow> string \<Rightarrow> nat \<Rightarrow> (entry \<times> real) list" where
  "think st queryText limit =
     (let kwSet = kw_pool st queryText limit;
          vecScores = vec_pool st queryText limit;
          scored = sort_desc snd (fuse kwSet vecScores);
          topIds = map fst (take limit scored)
      in if topIds = [] then []
         else sort_desc snd
                (map (\<lambda>r. (r, hybrid_score_of scored r))
                   (filter (\<lambda>r. entry_id r \<in> set topIds) (intel st))))"

text \<open>
  \<open>reindex()\<close>. The statement that finds the rows to embed is a LEFT JOIN of \<open>intel\<close>
  with \<open>intel_vec\<close> filtered by \<open>v.intel_id IS NULL\<close>. \<open>try_batch\<close> is the body of the
  \<open>try\<close>: one call of the gateway, then one transaction that upserts a vector for every
  entry of the batch; when either throws, the transaction is rolled back, the store is
  the one before, and the batch counts for nothing. The loop also records the texts of
  every gateway call it made, in order; the source returns \<open>{embedded, total}\<close>, here the
  pair in the first component.
\<close>

definition left_join :: "entry list \<Rightarrow> (nat \<times> vector) list \<Rightarrow> (entry \<times> (nat \<times> vector) option) list" where
  "left_join es vs =
     concat (map (\<lambda>i. case filter (\<lambda>v. entry_id i = fst v) vs of
                         [] \<Rightarrow> [(i, None)]
                       | m # ms \<Rightarrow> map (\<lambda>v. (i, Some v)) (m # ms)) es)"

definition missing_rows :: "store \<Rightarrow> entry list" where
  "missing_rows st = map fst (filter (\<lambda>row. snd row = None) (left_join (intel st) (intel_vec st)))"

definition batchSize :: nat where
  "batchSize = 128"

fun upsert_each :: "store \<Rightarrow> entry list \<Rightarrow> vector list \<Rightarrow> nat \<Rightarrow> js_error + store" where
  "upsert_each st [] vectors j = Inr st"
| "upsert_each st (r # rs) vectors j =
     (case vec_insert_or_replace st (entry_id r) (float32Buffer (nth_opt vectors j)) of
        Inl e \<Rightarrow> Inl e
      | Inr st' \<Rightarrow> upsert_each st' rs vectors (Suc j))"

definition try_batch :: "store \<Rightarrow> entry list \<Rightarrow> string list \<Rightarrow> store \<times> nat" where
  "try_batch st batch texts =
     (case embed (embeddingConfig st) texts Document of
        Inl e \<Rightarrow> (st, 0)
      | Inr vectors \<Rightarrow>
          (case upsert_each st batch vectors 0 of
             Inl e \<Rightarrow> (st, 0)
           | Inr st' \<Rightarrow> (st', length batch)))"

function reindex_loop ::
  "store \<Rightarrow> entry list \<Rightarrow> nat \<Rightarrow> nat \<Rightarrow> string list list \<Rightarrow> store \<times> nat \<times> string list list" where
  "reindex_loop st missing i embedded calls =
     (if i < length missing
      then let batch = take batchSize (drop i missing);
               texts = map (\<lambda>r. embed_text (title r) (body r)) batch;
               (st', n) = try_batch st batch texts
           in reindex_loop st' missing (i + batchSize) (embedded + n) (calls @ [texts])
      else (st, embedded, calls))"
  by pat_completeness auto
termination
  by (relation "measure (\<lambda>(st, missing, i, embedded, calls). length missing - i)")
     (auto simp: batchSize_def)

definition reindex :: "store \<Rightarrow> (js_error + nat \<times> nat) \<times> store \<times> string list list" where
  "reindex st =
     (case embeddingConfig st of
        None \<Rightarrow> (Inl (Error ''No embedding provider configured''), st, [])
      | Some c \<Rightarrow>
          if \<not> vecLoaded st then (Inl (Error ''sqlite-vec not loaded''), st, [])
          else let missing = missing_rows st
               in if length missing = 0 then (Inr (0, 0), st, [])
                  else let (st', embedded, calls) = reindex_loop st missing 0 0 []
                       in (Inr (embedded, length missing), st', calls))"

section \<open>Trade operations\<close>

record trade_data =
  data_ticker :: string
  data_series_ticker :: "string option"
  data_direction :: string
  data_contracts :: int
  data_entry_price :: real
  data_thesis :: "string option"
  data_trade_metadata :: "string option"

definition addTrade :: "store \<Rightarrow> timestamp \<Rightarrow> trade_data \<Rightarrow> nat \<times> store" where
  "addTrade st now data =
     (let i = next_rowid (trades_seq st) (map trade_id (trades_tbl st));
          row = \<lparr>trade_id = i, ticker = data_ticker data,
                 series_ticker = or_null (data_series_ticker data),
                 direction = data_direction data, contracts = data_contracts data,
                 entry_price = data_entry_price data, exit_price = None,
                 thesis = or_null (data_thesis data), outcome = None, pnl_cents = None,
                 placed_at = now, resolved_at = None,
                 trade_metadata = or_default ''{}'' (data_trade_metadata data)\<rparr>
      in (i, st\<lparr>trades_tbl := trades_tbl st @ [row], trades_seq := i\<rparr>))"

text \<open>
  \<open>resolveTrade(id, outcome, pnl_cents)\<close>: one UPDATE whose WHERE clause is \<open>id = ?\<close>
  alone.
\<close>

definition resolveTrade :: "store \<Rightarrow> timestamp \<Rightarrow> nat \<Rightarrow> string \<Rightarrow> int \<Rightarrow> store" where
  "resolveTrade st now i out pnl =
     st\<lparr>trades_tbl :=
          map (\<lambda>t. if trade_id t = i
                    then t\<lparr>outcome := Some out, pnl_cents := Some pnl, resolved_at := Some now\<rparr>
                    else t)
            (trades_tbl st)\<rparr>"

text \<open>\<open>trades({limit = 20, since, resolved})\<close>.\<close>

record trades_options =
  topt_limit :: "nat option"
  topt_since :: "string option"
  topt_resolved :: "bool option"

definition trades_where :: "trades_options \<Rightarrow> trade \<Rightarrow> bool" where
  "trades_where options t \<longleftrightarrow>
     (case or_null (topt_since options) of None \<Rightarrow> True | Some s \<Rightarrow> s \<le> placed_at t) \<and>
     (case topt_resolved options of
        None \<Rightarrow> True
      | Some True \<Rightarrow> outcome t \<noteq> None
      | Some False \<Rightarrow> outcome t = None)"

definition trades :: "store \<Rightarrow> trades_options \<Rightarrow> trade list" where
  "trades st options =
     take (or_default 20 (topt_limit options))
       (sort_desc placed_at (filter (trades_where options) (trades_tbl st)))"

section \<open>Example stores\<close>

text \<open>
  The constructor and \<open>_init\<close>. On a fresh database: empty tables, the embedding
  configuration and the dimension as given, \<open>_vecLoaded\<close> as the load of the extension
  and the creation of \<open>intel_vec\<close> turned out; the table is created with the given
  dimension. On an existing database (\<open>reopen\<close>) the tables are kept, and so is the
  width of an \<open>intel_vec\<close> that exists.
\<close>

definition OpenIntel :: "embedding_config option \<Rightarrow> nat \<Rightarrow> bool \<Rightarrow> (vector \<Rightarrow> vector \<Rightarrow> real) \<Rightarrow> store" where
  "OpenIntel cfg dims loaded metric =
     \<lparr>embeddingConfig = cfg, dimensions = dims, vecLoaded = loaded, vec_distance = metric,
      intel = [], intel_seq = 0, intel_vec = [],
      vec_width = (if loaded then Some dims else None),
      trades_tbl = [], trades_seq = 0\<rparr>"

definition reopen :: "store \<Rightarrow> embedding_config option \<Rightarrow> nat \<Rightarrow> bool \<Rightarrow> store" where
  "reopen db cfg dims loaded =
     db\<lparr>embeddingConfig := cfg, dimensions := dims, vecLoaded := loaded,
        vec_width := (if loaded then (case vec_width db of None \<Rightarrow> Some dims | Some w \<Rightarrow> Some w)
                      else vec_width db)\<rparr>"

definition no_data :: add_data where
  "no_data = \<lparr>data_title = None, data_body = None, data_source = None, data_tags = None,
              data_confidence = None, data_actionable = None, data_metadata = None,
              data_expires_at = None\<rparr>"

text \<open>The three entries of the repository's smoke test, added one second apart.\<close>

definition add_smoke :: "store \<Rightarrow> store" where
  "add_smoke st0 =
     (let st1 = snd (add st0 ''2024-01-01 00:00:01'' ''market''
                  (no_data\<lparr>data_title := Some ''Test signal'',
                            data_body := Some ''AAPL looking strong'',
                            data_tags := Some [''AAPL'', ''earnings'']\<rparr>));
          st2 = snd (add st1 ''2024-01-01 00:00:02'' ''newsletter''
                  (no_data\<lparr>data_title := Some ''Morning Brew digest'',
                            data_body := Some ''Fed rate cut expected'',
                            data_tags := Some [''fed'', ''macro'']\<rparr>))
      in snd (add st2 ''2024-01-01 00:00:03'' ''market''
                  (no_data\<lparr>data_title := Some ''Crypto rally'',
                            data_body := Some ''BTC above 70K'',
                            data_tags := Some [''BTC'', ''crypto''],
                            data_confidence := Some (9 / 10),
                            data_actionable := Some True\<rparr>)))"

text \<open>The store of the smoke test: no embedding provider, no vector extension.\<close>

definition l1_distance :: "vector \<Rightarrow> vector \<Rightarrow> real" where
  "l1_distance u v = sum_list (map (\<lambda>(a, b). \<bar>a - b\<bar>) (zip u v))"

definition smoke_store :: store where
  "smoke_store = add_smoke (OpenIntel None 1024 False l1_distance)"

text \<open>
  A store with a caller-supplied gateway of dimension 2 that embeds a text as
  (number of characters, number of spaces) and tells the two modes apart: in query
  mode the first component is one larger. The same three entries.
\<close>

definition toy_embedFn :: "string list \<Rightarrow> input_type \<Rightarrow> js_error + vector list" where
  "toy_embedFn texts inputType =
     Inr (map (\<lambda>t. [real (length t) + (if inputType = Query then 1 else 0),
                      real (length (filter (\<lambda>c. c = CHR '' '') t))]) texts)"

definition no_remote :: "string \<Rightarrow> string list \<Rightarrow> input_type option \<Rightarrow> js_error + vector list" where
  "no_remote name texts inputType = Inl \<lparr>err_name = ''TypeError'', message = ''fetch failed''\<rparr>"

definition toy_config :: embedding_config where
  "toy_config = \<lparr>provider = Some ''custom'', embedFn = Some toy_embedFn, remote = no_remote\<rparr>"

definition toy_store :: store where
  "toy_store = add_smoke (OpenIntel (Some toy_config) 2 True l1_distance)"

text \<open>A store whose remote provider is unreachable: every gateway call fails.\<close>

definition offline_config :: embedding_config where
  "offline_config = \<lparr>provider = Some ''voyage'', embedFn = None, remote = no_remote\<rparr>"

definition offline_store :: store where
  "offline_store = add_smoke (OpenIntel (Some offline_config) 2 True l1_distance)"

text \<open>The same provider and entries, but the vector extension did not load.\<close>

definition novec_store :: store where
  "novec_store = add_smoke (OpenIntel (Some toy_config) 2 False l1_distance)"

text \<open>
  The smoke-test database opened again with the toy gateway and the extension loaded:
  three entries, none of them embedded yet.
\<close>

definition backfill_store :: store where
  "backfill_store = reopen smoke_store (Some toy_config) 2 True"

text \<open>
  A store configured for dimension 3 whose gateway returns vectors of length 2: the
  index refuses every vector. The same three entries.
\<close>

definition wide_store :: store where
  "wide_store = add_smoke (OpenIntel (Some toy_config) 3 True l1_distance)"

text \<open>
  A database created with dimension 2 and opened again with dimension 3 configured: the
  index still takes the vectors of length 2.
\<close>

definition rewidth_store :: store where
  "rewidth_store = reopen toy_store (Some toy_config) 3 True"

text \<open>The trade of the smoke test, opened, resolved as a win, then resolved once more.\<close>

definition smoke_trade :: trade_data where
  "smoke_trade = \<lparr>data_ticker = ''AAPL'', data_series_ticker = None, data_direction = ''long'',
                  data_contracts = 100, data_entry_price = 371 / 2,
                  data_thesis = Some ''Earnings momentum'', data_trade_metadata = None\<rparr>"

definition trade_open :: store where
  "trade_open = snd (addTrade smoke_store ''2024-01-01 00:00:04'' smoke_trade)"

definition trade_won :: store where
  "trade_won = resolveTrade trade_open ''2024-01-02 09:30:00'' 1 ''win'' 350"

definition trade_rewritten :: store where
  "trade_rewritten = resolveTrade trade_won ''2024-01-03 16:00:00'' 1 ''loss'' (- 100)"

text \<open>
  A store of 130 entries without vectors, ids 1 to 130, behind a gateway that refuses
  a request of 100 texts or more.
\<close>

definition small_only :: "string list \<Rightarrow> input_type \<Rightarrow> js_error + vector list" where
  "small_only texts inputType =
     (if length texts < 100 then toy_embedFn texts inputType
      else Inl \<lparr>err_name = ''Error'', message = ''Embedding API 413: too many inputs''\<rparr>)"

definition bulk_entry :: "nat \<Rightarrow> entry" where
  "bulk_entry n = \<lparr>entry_id = n, category = ''market'', title = ''note'', body = None,
      source = None, tags = [], confidence = 1 / 2, actionable = 0, metadata = ''{}'',
      created_at = ''2024-01-01 00:00:00'', expires_at = None\<rparr>"

definition bulk_store :: store where
  "bulk_store =
     (OpenIntel (Some \<lparr>provider = Some ''custom'', embedFn = Some small_only, remote = no_remote\<rparr>)
        2 True l1_distance)
     \<lparr>intel := map bulk_entry [1..<131], intel_seq := 130\<rparr>"

text \<open>The same 130 entries behind the working gateway of dimension 2.\<close>

definition bulk_toy_store :: store where
  "bulk_toy_store =
     (OpenIntel (Some toy_config) 2 True l1_distance)
     \<lparr>intel := map bulk_entry [1..<131], intel_seq := 130\<rparr>"

text \<open>An entry to add: a title and a body, nothing else.\<close>

definition wire :: add_data where
  "wire = no_data\<lparr>data_title := Some ''Rates on hold'', data_body := Some ''No cut in March''\<rparr>"

text \<open>A string that \<open>JSON.stringify\<close> writes between the quotes as it is.\<close>

definition plain_text :: "string \<Rightarrow> bool" where
  "plain_text s = list_all (\<lambda>c. json_escape c = [c]) s"

text \<open>
  Definitions that follow the wording of the specification, for comparison with the
  code: an entry that contains the text as a literal substring of title, body or
  source; an entry that carries the tag text anywhere in its serialized tag list; the
  batches of at most \<open>n\<close> elements of a list.
\<close>

definition spec_contains :: "string \<Rightarrow> entry \<Rightarrow> bool" where
  "spec_contains text r \<longleftrightarrow>
     includes_str (title r) text \<or>
     (case body r of None \<Rightarrow> False | Some b \<Rightarrow> includes_str b text) \<or>
     (case source r of None \<Rightarrow> False | Some s \<Rightarrow> includes_str s text)"

definition spec_tag_occurs :: "string \<Rightarrow> entry \<Rightarrow> bool" where
  "spec_tag_occurs t r \<longleftrightarrow> includes_str (tags_column r) t"

function chunks :: "nat \<Rightarrow> 'a list \<Rightarrow> 'a list list" where
  "chunks n xs = (if n = 0 \<or> xs = [] then [] else take n xs # chunks n (drop n xs))"
  by pat_completeness auto
termination
  by (relation "measure (\<lambda>(n, xs). length xs)") auto

text \<open>
  Reindex as the specification words it. The missing-embeddings set is the entries
  without a vector (entries minus vectors); nothing missing is a zero-work result.
  Otherwise the missing entries are cut into batches of 128. For each batch the texts
  are composed as at ingestion and the gateway is called once; a batch whose gateway call
  fails is skipped; the vectors of a batch are upserted in one atomic transaction, so the
  batch fully lands (every entry gets the vector at its position in the gateway's
  answer) when the index takes all of them, and does not land at all otherwise. The
  result counts the entries embedded against the entries that were missing.
\<close>

definition spec_upsert :: "(nat \<times> vector) list \<Rightarrow> nat \<times> vector \<Rightarrow> (nat \<times> vector) list" where
  "spec_upsert tbl p = filter (\<lambda>row. fst row \<noteq> fst p) tbl @ [p]"

definition batch_vectors :: "entry list \<Rightarrow> vector list \<Rightarrow> (nat \<times> vector) list" where
  "batch_vectors batch vectors =
     map (\<lambda>j. (entry_id (batch ! j), float32Buffer (nth_opt vectors j))) [0..<length batch]"

definition spec_batch :: "store \<Rightarrow> entry list \<Rightarrow> store \<times> nat" where
  "spec_batch st batch =
     (case embed (embeddingConfig st) (map (\<lambda>r. embed_text (title r) (body r)) batch) Document of
        Inl e \<Rightarrow> (st, 0)
      | Inr vectors \<Rightarrow>
          if list_all (\<lambda>p. fits st (snd p)) (batch_vectors batch vectors)
          then (st\<lparr>intel_vec := foldl spec_upsert (intel_vec st) (batch_vectors batch vectors)\<rparr>,
                length batch)
          else (st, 0))"

definition reindex_step ::
  "entry list \<Rightarrow> store \<times> nat \<times> string list list \<Rightarrow> store \<times> nat \<times> string list list" where
  "reindex_step batch acc =
     (case acc of (st, embedded, calls) \<Rightarrow>
        let (st', n) = spec_batch st batch
        in (st', embedded + n, calls @ [map (\<lambda>r. embed_text (title r) (body r)) batch]))"

definition reindex_spec :: "store \<Rightarrow> (js_error + nat \<times> nat) \<times> store \<times> string list list" where
  "reindex_spec st =
     (case embeddingConfig st of
        None \<Rightarrow> (Inl (Error ''No embedding provider configured''), st, [])
      | Some c \<Rightarrow>
          if \<not> vecLoaded st then (Inl (Error ''sqlite-vec not loaded''), st, [])
          else let missing = filter (\<lambda>r. entry_id r \<notin> fst ` set (intel_vec st)) (intel st)
               in if missing = [] then (Inr (0, 0), st, [])
                  else let (st', embedded, calls) = fold reindex_step (chunks 128 missing) (st, 0, [])
                       in (Inr (embedded, length missing), st', calls))"

section \<open>Properties of LIKE\<close>

lemma like_percent_all: "like [CHR ''%''] s"
  by (induction s) auto

lemma like_tail_nocase:
  "wildcard_free t \<Longrightarrow> like (t @ [CHR ''%'']) s = startsWith_nocase s t"
proof (induction t arbitrary: s)
  case Nil
  then show ?case by (simp add: like_percent_all)
next
  case (Cons p ps)
  then have wf: "wildcard_free ps" and p: "p \<noteq> CHR ''%''" "p \<noteq> CHR ''_''"
    by (auto simp: wildcard_free_def)
  show ?case
  proof (cases s)
    case Nil
    with p show ?thesis by simp
  next
    case (Cons c cs)
    with p Cons.IH [OF wf] show ?thesis by simp
  qed
qed

lemma startsWith_nocase_Nil: "startsWith_nocase [] t = (t = [])"
  by (cases t) auto

lemma like_substring_nocase:
  "wildcard_free t \<Longrightarrow> like (CHR ''%'' # t @ [CHR ''%'']) s = includes_nocase s t"
proof (induction s)
  case Nil
  then show ?case
    using like_tail_nocase [of t "[]"] by (simp add: startsWith_nocase_Nil)
next
  case (Cons c cs)
  then show ?case
    using like_tail_nocase [of t "c # cs"] by simp
qed

section \<open>Properties of the descending sort\<close>

lemma mset_insort_desc: "mset (insort_desc f x xs) = add_mset x (mset xs)"
  by (induction xs) auto

lemma mset_sort_desc: "mset (sort_desc f xs) = mset xs"
  by (induction xs) (auto simp: mset_insort_desc)

lemma set_sort_desc: "set (sort_desc f xs) = set xs"
  using mset_sort_desc [of f xs] by (metis set_mset_mset)

lemma length_sort_desc: "length (sort_desc f xs) = length xs"
  using mset_sort_desc [of f xs] by (metis size_mset)

lemma set_insort_desc: "set (insort_desc f x xs) = insert x (set xs)"
  using mset_insort_desc [of f x xs] by (metis set_mset_mset set_mset_add_mset_insert)

lemma sorted_insort_desc:
  "sorted_wrt (\<lambda>a b. f b \<le> f a) xs \<Longrightarrow> sorted_wrt (\<lambda>a b. f b \<le> f a) (insort_desc f x xs)"
  by (induction xs) (auto simp: set_insort_desc)

lemma sorted_sort_desc: "sorted_wrt (\<lambda>a b. f b \<le> f a) (sort_desc f xs)"
  by (induction xs) (auto simp: sorted_insort_desc)

lemma sorted_wrt_take_drop:
  "sorted_wrt P xs \<Longrightarrow> x \<in> set (take n xs) \<Longrightarrow> y \<in> set (drop n xs) \<Longrightarrow> P x y"
  by (metis append_take_drop_id sorted_wrt_append)

text \<open>
  The first \<open>n\<close> rows of a descending sort are a largest part of the list: what is
  left out is nowhere above what is kept. This holds however equal keys are ordered.
\<close>

lemma top_of_sorted:
  "\<exists>rest. mset (take n (sort_desc f xs) @ rest) = mset xs \<and>
          (\<forall>x\<in>set (take n (sort_desc f xs)). \<forall>y\<in>set rest. f y \<le> f x)"
proof (intro exI conjI ballI)
  show "mset (take n (sort_desc f xs) @ drop n (sort_desc f xs)) = mset xs"
    by (simp add: mset_sort_desc)
next
  fix x y
  assume "x \<in> set (take n (sort_desc f xs))" "y \<in> set (drop n (sort_desc f xs))"
  then show "f y \<le> f x"
    using sorted_wrt_take_drop [OF sorted_sort_desc] by fast
qed

section \<open>Reindex: the loop and its batches\<close>

declare reindex_loop.simps [simp del] chunks.simps [simp del]

lemma missing_rows_anti_join:
  "missing_rows st = filter (\<lambda>r. entry_id r \<notin> fst ` set (intel_vec st)) (intel st)"
proof -
  have "map fst (filter (\<lambda>row. snd row = None) (left_join es vs)) =
        filter (\<lambda>r. entry_id r \<notin> fst ` set vs) es" for es :: "entry list" and vs :: "(nat \<times> vector) list"
  proof (induction es)
    case Nil
    then show ?case by (simp add: left_join_def)
  next
    case (Cons e es)
    have step: "left_join (e # es) vs =
        (case filter (\<lambda>v. entry_id e = fst v) vs of
           [] \<Rightarrow> [(e, None)] | m # ms \<Rightarrow> map (\<lambda>v. (e, Some v)) (m # ms)) @ left_join es vs"
      by (simp add: left_join_def)
    show ?case
    proof (cases "filter (\<lambda>v. entry_id e = fst v) vs")
      case Nil
      then have "entry_id e \<notin> fst ` set vs"
        by (auto simp: filter_empty_conv)
      with Nil Cons.IH step show ?thesis by simp
    next
      case (Cons m ms)
      then have "m \<in> set (filter (\<lambda>v. entry_id e = fst v) vs)" by simp
      then have "entry_id e \<in> fst ` set vs" by auto
      moreover have "filter (\<lambda>row. snd row = None) (map (\<lambda>v. (e, Some v)) (m # ms)) = []"
        by (simp add: filter_empty_conv)
      ultimately show ?thesis using Cons Cons.IH step by simp
    qed
  qed
  then show ?thesis by (simp add: missing_rows_def)
qed

lemma vec_insert_or_replace_Inr:
  "vec_insert_or_replace st i v = Inr st' \<Longrightarrow>
   st' = st\<lparr>intel_vec := intel_vec st'\<rparr> \<and> fits st v \<and>
   intel_vec st' = filter (\<lambda>row. fst row \<noteq> i) (intel_vec st) @ [(i, v)]"
  by (auto simp: vec_insert_or_replace_def split: if_splits)

lemma upsert_each_Inr:
  "upsert_each st batch vectors j = Inr st' \<Longrightarrow>
   st' = st\<lparr>intel_vec := intel_vec st'\<rparr> \<and>
   fst ` set (intel_vec st') = fst ` set (intel_vec st) \<union> entry_id ` set batch"
proof (induction batch arbitrary: st j)
  case Nil
  then show ?case by simp
next
  case (Cons r rs)
  from Cons.prems obtain st1 where
    a: "vec_insert_or_replace st (entry_id r) (float32Buffer (nth_opt vectors j)) = Inr st1"
    and b: "upsert_each st1 rs vectors (Suc j) = Inr st'"
    by (auto split: sum.splits)
  from vec_insert_or_replace_Inr [OF a]
  have s1: "st1 = st\<lparr>intel_vec := intel_vec st1\<rparr>"
    and k1: "fst ` set (intel_vec st1) = fst ` set (intel_vec st) \<union> {entry_id r}"
    by auto
  from Cons.IH [OF b]
  have s2: "st' = st1\<lparr>intel_vec := intel_vec st'\<rparr>"
    and k2: "fst ` set (intel_vec st') = fst ` set (intel_vec st1) \<union> entry_id ` set rs"
    by auto
  have "st' = st\<lparr>intel_vec := intel_vec st'\<rparr>"
    by (subst s2, subst s1) simp
  with k1 k2 show ?case by auto
qed

lemma fits_intel_vec_update: "fits (st\<lparr>intel_vec := tbl\<rparr>) v = fits st v"
  by (simp add: fits_def)

lemma upsert_each_exact:
  "upsert_each st batch vectors j =
     (if list_all (\<lambda>p. fits st (snd p))
           (map (\<lambda>k. (entry_id (batch ! k), float32Buffer (nth_opt vectors (j + k)))) [0..<length batch])
      then Inr (st\<lparr>intel_vec := foldl spec_upsert (intel_vec st)
             (map (\<lambda>k. (entry_id (batch ! k), float32Buffer (nth_opt vectors (j + k)))) [0..<length batch])\<rparr>)
      else Inl (SqliteError ''Dimension mismatch''))"
proof (induction batch arbitrary: st j)
  case Nil
  then show ?case by simp
next
  case (Cons r rs)
  let ?v = "float32Buffer (nth_opt vectors j)"
  let ?ps = "map (\<lambda>k. (entry_id (rs ! k), float32Buffer (nth_opt vectors (Suc j + k)))) [0..<length rs]"
  have ps: "map (\<lambda>k. (entry_id ((r # rs) ! k), float32Buffer (nth_opt vectors (j + k)))) [0..<length (r # rs)] =
              (entry_id r, ?v) # ?ps"
    by (simp add: map_upt_Suc del: upt_Suc)
  show ?case
  proof (cases "fits st ?v")
    case False
    then show ?thesis
      unfolding ps by (simp add: vec_insert_or_replace_def)
  next
    case True
    define st1 where "st1 = st\<lparr>intel_vec := spec_upsert (intel_vec st) (entry_id r, ?v)\<rparr>"
    have ins: "vec_insert_or_replace st (entry_id r) ?v = Inr st1"
      using True by (simp add: vec_insert_or_replace_def st1_def spec_upsert_def)
    have f: "fits st1 v = fits st v" for v
      by (simp add: st1_def fits_def)
    have "upsert_each st (r # rs) vectors j = upsert_each st1 rs vectors (Suc j)"
      by (simp add: ins)
    also have "\<dots> = (if list_all (\<lambda>p. fits st (snd p)) ?ps
        then Inr (st1\<lparr>intel_vec := foldl spec_upsert (intel_vec st1) ?ps\<rparr>)
        else Inl (SqliteError ''Dimension mismatch''))"
      by (simp only: Cons.IH f)
    also have "\<dots> = (if list_all (\<lambda>p. fits st (snd p)) ((entry_id r, ?v) # ?ps)
        then Inr (st\<lparr>intel_vec := foldl spec_upsert (intel_vec st) ((entry_id r, ?v) # ?ps)\<rparr>)
        else Inl (SqliteError ''Dimension mismatch''))"
      using True by (simp add: st1_def)
    finally show ?thesis unfolding ps .
  qed
qed

lemma try_batch_exact:
  "try_batch st batch texts =
     (case embed (embeddingConfig st) texts Document of
        Inl e \<Rightarrow> (st, 0)
      | Inr vectors \<Rightarrow>
          if list_all (\<lambda>p. fits st (snd p)) (batch_vectors batch vectors)
          then (st\<lparr>intel_vec := foldl spec_upsert (intel_vec st) (batch_vectors batch vectors)\<rparr>,
                length batch)
          else (st, 0))"
  by (simp add: try_batch_def upsert_each_exact [where j = 0, simplified] batch_vectors_def
           split: sum.splits)

lemma try_batch_spec:
  "try_batch st batch (map (\<lambda>r. embed_text (title r) (body r)) batch) = spec_batch st batch"
  by (simp add: try_batch_exact spec_batch_def)

lemma batch_vectors_keys: "map fst (batch_vectors batch vectors) = map entry_id batch"
proof -
  have "map entry_id (map ((!) batch) [0..<length batch]) = map entry_id batch"
    by (simp only: map_nth)
  then show ?thesis by (simp add: batch_vectors_def comp_def)
qed

lemma foldl_spec_upsert_distinct:
  "distinct (map fst ps) \<Longrightarrow>
   foldl spec_upsert tbl ps = filter (\<lambda>row. fst row \<notin> fst ` set ps) tbl @ ps"
proof (induction ps arbitrary: tbl)
  case Nil
  then show ?case by simp
next
  case (Cons p ps)
  then have d: "distinct (map fst ps)" and n: "fst p \<notin> fst ` set ps" by simp_all
  have "foldl spec_upsert tbl (p # ps) = foldl spec_upsert (spec_upsert tbl p) ps" by simp
  also have "\<dots> = filter (\<lambda>row. fst row \<notin> fst ` set ps) (spec_upsert tbl p) @ ps"
    by (rule Cons.IH [OF d])
  also have "\<dots> = filter (\<lambda>row. fst row \<notin> fst ` set (p # ps)) tbl @ p # ps"
    using n by (simp add: spec_upsert_def conj_commute)
  finally show ?case .
qed

lemma batch_lands_distinct:
  "distinct (map entry_id batch) \<Longrightarrow>
   foldl spec_upsert tbl (batch_vectors batch vectors) =
     filter (\<lambda>row. fst row \<notin> entry_id ` set batch) tbl @ batch_vectors batch vectors"
proof -
  assume "distinct (map entry_id batch)"
  then have "distinct (map fst (batch_vectors batch vectors))"
    by (simp only: batch_vectors_keys)
  from foldl_spec_upsert_distinct [OF this]
  have "foldl spec_upsert tbl (batch_vectors batch vectors) =
          filter (\<lambda>row. fst row \<notin> fst ` set (batch_vectors batch vectors)) tbl @ batch_vectors batch vectors" .
  moreover have "fst ` set (batch_vectors batch vectors) = entry_id ` set batch"
    using batch_vectors_keys [of batch vectors] by (metis image_set)
  ultimately show ?thesis by simp
qed

lemma try_batch_cases:
  "try_batch st batch texts = (st', n) \<Longrightarrow>
   st' = st\<lparr>intel_vec := intel_vec st'\<rparr> \<and>
   (n = 0 \<and> st' = st \<or>
    n = length batch \<and>
    fst ` set (intel_vec st') = fst ` set (intel_vec st) \<union> entry_id ` set batch)"
proof -
  assume tb: "try_batch st batch texts = (st', n)"
  show ?thesis
  proof (cases "embed (embeddingConfig st) texts Document")
    case (Inl e)
    with tb show ?thesis by (simp add: try_batch_def)
  next
    case (Inr vectors)
    show ?thesis
    proof (cases "upsert_each st batch vectors 0")
      case (Inl e)
      with Inr tb show ?thesis by (simp add: try_batch_def)
    next
      case up: (Inr st2)
      with Inr tb have "st' = st2" "n = length batch" by (simp_all add: try_batch_def)
      with upsert_each_Inr [OF up] show ?thesis by simp
    qed
  qed
qed

lemma reindex_loop_inv:
  "reindex_loop st missing i embedded calls = (st', embedded', calls') \<Longrightarrow>
   st' = st\<lparr>intel_vec := intel_vec st'\<rparr> \<and>
   fst ` set (intel_vec st) \<subseteq> fst ` set (intel_vec st') \<and>
   embedded \<le> embedded' \<and> embedded' \<le> embedded + (length missing - i) \<and>
   (embedded' = embedded + (length missing - i) \<longrightarrow>
      entry_id ` set (drop i missing) \<subseteq> fst ` set (intel_vec st'))"
proof (induction st missing i embedded calls arbitrary: st' embedded' calls' rule: reindex_loop.induct)
  case (1 st missing i embedded calls)
  show ?case
  proof (cases "i < length missing")
    case False
    with "1.prems" show ?thesis by (simp add: reindex_loop.simps)
  next
    case True
    define batch where "batch = take batchSize (drop i missing)"
    define texts where "texts = map (\<lambda>r. embed_text (title r) (body r)) batch"
    obtain st1 n where tb: "try_batch st batch texts = (st1, n)" by fastforce
    from "1.prems" True tb
    have rec: "reindex_loop st1 missing (i + batchSize) (embedded + n) (calls @ [texts]) =
                 (st', embedded', calls')"
      by (simp add: reindex_loop.simps [of st] batch_def texts_def)
    note ih = "1.IH" [OF True batch_def texts_def tb [symmetric] refl rec]
    note tc = try_batch_cases [OF tb]
    have lb: "length batch = min batchSize (length missing - i)"
      by (simp add: batch_def)
    have split: "set (drop i missing) = set batch \<union> set (drop (i + batchSize) missing)"
      by (metis batch_def append_take_drop_id drop_drop set_append add.commute)
    from ih have s2: "st' = st1\<lparr>intel_vec := intel_vec st'\<rparr>" by blast
    from tc have s1: "st1 = st\<lparr>intel_vec := intel_vec st1\<rparr>" by blast
    have s: "st' = st\<lparr>intel_vec := intel_vec st'\<rparr>"
      by (subst s2, subst s1) simp
    have k1: "fst ` set (intel_vec st) \<subseteq> fst ` set (intel_vec st1)"
      using tc by auto
    have k2: "fst ` set (intel_vec st1) \<subseteq> fst ` set (intel_vec st')"
      using ih by blast
    have n: "n = 0 \<or> n = length batch" using tc by blast
    have e1: "embedded + n \<le> embedded'" using ih by blast
    have e2: "embedded' \<le> embedded + n + (length missing - (i + batchSize))" using ih by blast
    have up: "embedded' \<le> embedded + (length missing - i)"
      using e2 n lb by auto
    have full: "entry_id ` set (drop i missing) \<subseteq> fst ` set (intel_vec st')"
      if eq: "embedded' = embedded + (length missing - i)"
    proof -
      have pos: "0 < length batch" using lb True by (simp add: batchSize_def)
      have nl: "n = length batch"
      proof (rule ccontr)
        assume "n \<noteq> length batch"
        with n have "n = 0" by blast
        with e2 eq pos lb show False by auto
      qed
      with tc pos have kb: "entry_id ` set batch \<subseteq> fst ` set (intel_vec st1)" by auto
      have "embedded' = embedded + n + (length missing - (i + batchSize))"
        using eq nl lb by auto
      with ih have "entry_id ` set (drop (i + batchSize) missing) \<subseteq> fst ` set (intel_vec st')"
        by blast
      with kb k2 split show ?thesis by auto
    qed
    from s k1 k2 e1 up full show ?thesis by auto
  qed
qed

lemma reindex_Inr_store:
  "reindex st = (res, st', calls) \<Longrightarrow> st' = st\<lparr>intel_vec := intel_vec st'\<rparr>"
proof -
  assume r: "reindex st = (res, st', calls)"
  show ?thesis
  proof (cases "embeddingConfig st")
    case None
    with r show ?thesis by (simp add: reindex_def)
  next
    case (Some c)
    show ?thesis
    proof (cases "vecLoaded st \<and> missing_rows st \<noteq> []")
      case False
      with Some r show ?thesis by (auto simp: reindex_def Let_def split: if_splits)
    next
      case True
      obtain s e c where l: "reindex_loop st (missing_rows st) 0 0 [] = (s, e, c)"
        by (metis prod_cases3)
      with True Some r have "st' = s" by (simp add: reindex_def Let_def)
      with reindex_loop_inv [OF l] show ?thesis by simp
    qed
  qed
qed

lemma reindex_loop_chunks:
  "reindex_loop st missing i embedded calls =
     fold reindex_step (chunks batchSize (drop i missing)) (st, embedded, calls)"
proof (induction st missing i embedded calls rule: reindex_loop.induct)
  case (1 st missing i embedded calls)
  show ?case
  proof (cases "i < length missing")
    case False
    then show ?thesis by (simp add: reindex_loop.simps chunks.simps)
  next
    case True
    define batch where "batch = take batchSize (drop i missing)"
    define texts where "texts = map (\<lambda>r. embed_text (title r) (body r)) batch"
    obtain st1 n where tb: "try_batch st batch texts = (st1, n)" by fastforce
    have ch: "chunks batchSize (drop i missing) = batch # chunks batchSize (drop (i + batchSize) missing)"
      using True by (subst chunks.simps) (simp add: batch_def batchSize_def add.commute)
    have "reindex_loop st missing i embedded calls =
            reindex_loop st1 missing (i + batchSize) (embedded + n) (calls @ [texts])"
      using True tb by (simp add: reindex_loop.simps [of st] batch_def texts_def)
    also have "\<dots> = fold reindex_step (chunks batchSize (drop (i + batchSize) missing))
                      (st1, embedded + n, calls @ [texts])"
      by (rule "1.IH" [OF True batch_def texts_def tb [symmetric] refl])
    also have "\<dots> = fold reindex_step (chunks batchSize (drop i missing)) (st, embedded, calls)"
      using tb by (simp add: ch reindex_step_def texts_def try_batch_spec [symmetric])
    finally show ?thesis .
  qed
qed

lemma reindex_refines_spec: "reindex st = reindex_spec st"
  by (simp add: reindex_def reindex_spec_def missing_rows_anti_join reindex_loop_chunks
        batchSize_def Let_def split: option.splits)

lemma fits_all_conv:
  "list_all (\<lambda>p. fits st (snd p)) (batch_vectors batch vectors) \<longleftrightarrow>
     (\<forall>k<length batch. vec_width st = Some (length (float32Buffer (nth_opt vectors k))))"
  by (auto simp: list_all_iff batch_vectors_def fits_def)

lemma spec_upsert_fun: "spec_upsert = (\<lambda>tbl p. filter (\<lambda>row. fst row \<noteq> fst p) tbl @ [p])"
  by (intro ext) (simp add: spec_upsert_def)

lemma fold_reindex_step_closed:
  "fold reindex_step bs (st, e, calls) =
     (st\<lparr>intel_vec :=
          foldl (\<lambda>tbl b.
                   case embed (embeddingConfig st) (map (\<lambda>r. embed_text (title r) (body r)) b) Document of
                     Inl x \<Rightarrow> tbl
                   | Inr vectors \<Rightarrow>
                       if list_all (\<lambda>p. fits st (snd p)) (batch_vectors b vectors)
                       then foldl spec_upsert tbl (batch_vectors b vectors) else tbl)
            (intel_vec st) bs\<rparr>,
      e + sum_list (map length
            (filter (\<lambda>b. case embed (embeddingConfig st) (map (\<lambda>r. embed_text (title r) (body r)) b) Document of
                            Inl x \<Rightarrow> False
                          | Inr vectors \<Rightarrow> list_all (\<lambda>p. fits st (snd p)) (batch_vectors b vectors)) bs)),
      calls @ map (map (\<lambda>r. embed_text (title r) (body r))) bs)"
proof (induction bs arbitrary: st e calls)
  case Nil
  then show ?case by simp
next
  case (Cons b bs)
  show ?case
  proof (cases "embed (embeddingConfig st) (map (\<lambda>r. embed_text (title r) (body r)) b) Document")
    case (Inl x)
    then have "spec_batch st b = (st, 0)" by (simp add: spec_batch_def)
    then have "fold reindex_step (b # bs) (st, e, calls) =
        fold reindex_step bs (st, e, calls @ [map (\<lambda>r. embed_text (title r) (body r)) b])"
      by (simp add: reindex_step_def)
    then show ?thesis using Inl by (simp add: Cons.IH)
  next
    case (Inr vectors)
    show ?thesis
    proof (cases "list_all (\<lambda>p. fits st (snd p)) (batch_vectors b vectors)")
      case False
      with Inr have "spec_batch st b = (st, 0)" by (simp add: spec_batch_def)
      then have "fold reindex_step (b # bs) (st, e, calls) =
          fold reindex_step bs (st, e, calls @ [map (\<lambda>r. embed_text (title r) (body r)) b])"
        by (simp add: reindex_step_def)
      then show ?thesis using Inr False by (simp add: Cons.IH)
    next
      case True
      define st1 where "st1 = st\<lparr>intel_vec := foldl spec_upsert (intel_vec st) (batch_vectors b vectors)\<rparr>"
      from Inr True have "spec_batch st b = (st1, length b)" by (simp add: spec_batch_def st1_def)
      then have step: "fold reindex_step (b # bs) (st, e, calls) =
          fold reindex_step bs (st1, e + length b, calls @ [map (\<lambda>r. embed_text (title r) (body r)) b])"
        by (simp add: reindex_step_def)
      have f: "embeddingConfig st1 = embeddingConfig st" "\<And>v. fits st1 v = fits st v"
        "intel_vec st1 = foldl spec_upsert (intel_vec st) (batch_vectors b vectors)"
        "\<And>X. st1\<lparr>intel_vec := X\<rparr> = st\<lparr>intel_vec := X\<rparr>"
        by (simp_all add: st1_def fits_def)
      show ?thesis
        unfolding step Cons.IH f using Inr True by simp
    qed
  qed
qed

lemma reindex_closed:
  assumes "embeddingConfig st = Some c" and "vecLoaded st"
  shows "reindex st =
     (Inr (sum_list (map length
            (filter (\<lambda>b. case embed (embeddingConfig st) (map (\<lambda>r. embed_text (title r) (body r)) b) Document of
                            Inl x \<Rightarrow> False
                          | Inr vectors \<Rightarrow> list_all (\<lambda>p. fits st (snd p)) (batch_vectors b vectors))
               (chunks 128 (missing_rows st)))),
           length (missing_rows st)),
      st\<lparr>intel_vec :=
          foldl (\<lambda>tbl b.
                   case embed (embeddingConfig st) (map (\<lambda>r. embed_text (title r) (body r)) b) Document of
                     Inl x \<Rightarrow> tbl
                   | Inr vectors \<Rightarrow>
                       if list_all (\<lambda>p. fits st (snd p)) (batch_vectors b vectors)
                       then foldl spec_upsert tbl (batch_vectors b vectors) else tbl)
            (intel_vec st) (chunks 128 (missing_rows st))\<rparr>,
      map (map (\<lambda>r. embed_text (title r) (body r))) (chunks 128 (missing_rows st)))"
proof (cases "missing_rows st = []")
  case True
  with assms show ?thesis by (simp add: reindex_def chunks.simps)
next
  case False
  with assms have "reindex st =
      (case reindex_loop st (missing_rows st) 0 0 [] of
         (st', embedded, calls) \<Rightarrow> (Inr (embedded, length (missing_rows st)), st', calls))"
    by (simp add: reindex_def Let_def)
  then show ?thesis
    by (simp add: reindex_loop_chunks fold_reindex_step_closed batchSize_def)
qed

lemma try_batch_lands:
  "embed (embeddingConfig st) texts Document = Inr vectors \<and>
      (\<forall>k<length batch. vec_width st = Some (length (float32Buffer (nth_opt vectors k)))) \<longrightarrow>
      try_batch st batch texts =
        (st\<lparr>intel_vec := foldl (\<lambda>tbl p. filter (\<lambda>row. fst row \<noteq> fst p) tbl @ [p]) (intel_vec st)
               (map (\<lambda>k. (entry_id (batch ! k), float32Buffer (nth_opt vectors k))) [0..<length batch])\<rparr>,
         length batch)"
  using try_batch_exact [of st batch texts, unfolded fits_all_conv, unfolded spec_upsert_fun batch_vectors_def]
  by simp

lemma try_batch_refused:
  "embed (embeddingConfig st) texts Document = Inr vectors \<and> k < length batch \<and>
      vec_width st \<noteq> Some (length (float32Buffer (nth_opt vectors k))) \<longrightarrow>
      try_batch st batch texts = (st, 0)"
  using try_batch_exact [of st batch texts, unfolded fits_all_conv]
  by auto

lemma batch_lands_closed:
  "distinct (map entry_id (batch :: entry list)) \<longrightarrow>
      foldl (\<lambda>tbl p. filter (\<lambda>row. fst row \<noteq> fst p) tbl @ [p]) tbl
        (map (\<lambda>k. (entry_id (batch ! k), float32Buffer (nth_opt vectors k))) [0..<length batch]) =
      filter (\<lambda>row. fst row \<notin> entry_id ` set batch) tbl @
        (map (\<lambda>k. (entry_id (batch ! k), float32Buffer (nth_opt vectors k))) [0..<length batch])"
  using batch_lands_distinct [of batch tbl vectors, unfolded spec_upsert_fun batch_vectors_def]
  by simp

lemma reindex_run:
  "embeddingConfig st = Some c \<and> vecLoaded st \<longrightarrow>
   reindex st =
        (Inr (sum_list (map length
               (filter (\<lambda>b. case embed (embeddingConfig st) (map (\<lambda>r. embed_text (title r) (body r)) b) Document of
                               Inl x \<Rightarrow> False
                             | Inr vectors \<Rightarrow> (\<forall>k<length b. vec_width st = Some (length (float32Buffer (nth_opt vectors k)))))
                  (chunks 128 (missing_rows st)))),
              length (missing_rows st)),
         st\<lparr>intel_vec :=
             foldl (\<lambda>tbl b.
                      case embed (embeddingConfig st) (map (\<lambda>r. embed_text (title r) (body r)) b) Document of
                        Inl x \<Rightarrow> tbl
                      | Inr vectors \<Rightarrow>
                          if (\<forall>k<length b. vec_width st = Some (length (float32Buffer (nth_opt vectors k))))
                          then foldl (\<lambda>tbl p. filter (\<lambda>row. fst row \<noteq> fst p) tbl @ [p]) tbl
                                 (map (\<lambda>k. (entry_id (b ! k), float32Buffer (nth_opt vectors k))) [0..<length b])
                          else tbl)
               (intel_vec st) (chunks 128 (missing_rows st))\<rparr>,
         map (map (\<lambda>r. embed_text (title r) (body r))) (chunks 128 (missing_rows st)))"
  using reindex_closed [of st c, unfolded fits_all_conv, unfolded spec_upsert_fun batch_vectors_def]
  by simp

lemma foldl_upsert_keys:
  assumes "distinct (map entry_id (batch :: entry list))"
    and "entry_id ` set batch \<inter> fst ` set tbl = {}"
  shows "map fst (foldl (\<lambda>tbl p. filter (\<lambda>row. fst row \<noteq> fst p) tbl @ [p]) tbl
            (map (\<lambda>k. (entry_id (batch ! k), float32Buffer (nth_opt vectors k))) [0..<length batch])) =
         map fst tbl @ map entry_id batch"
proof -
  have "filter (\<lambda>row. fst row \<notin> entry_id ` set batch) tbl = tbl"
    using assms(2) by (auto simp: filter_id_conv)
  with batch_lands_closed [of batch tbl vectors, rule_format, OF assms(1)]
       batch_vectors_keys [of batch vectors, unfolded batch_vectors_def]
  show ?thesis by simp
qed

lemma chunks_texts:
  "snd (snd (fold reindex_step bs (st, embedded, calls))) =
     calls @ map (map (\<lambda>r. embed_text (title r) (body r))) bs"
proof (induction bs arbitrary: st embedded calls)
  case Nil
  then show ?case by simp
next
  case (Cons b bs)
  obtain st1 n where tb: "spec_batch st b = (st1, n)"
    by fastforce
  then show ?case using Cons.IH by (simp add: reindex_step_def)
qed

lemma chunks_props:
  "0 < n \<Longrightarrow> concat (chunks n xs) = xs \<and> (\<forall>b\<in>set (chunks n xs). b \<noteq> [] \<and> length b \<le> n) \<and>
     length (chunks n xs) = (length xs + n - 1) div n"
proof (induction n xs rule: chunks.induct)
  case (1 n xs)
  show ?case
  proof (cases "xs = []")
    case True
    with "1.prems" show ?thesis by (simp add: chunks.simps)
  next
    case False
    with "1.prems" have ih: "concat (chunks n (drop n xs)) = drop n xs \<and>
       (\<forall>b\<in>set (chunks n (drop n xs)). b \<noteq> [] \<and> length b \<le> n) \<and>
       length (chunks n (drop n xs)) = (length (drop n xs) + n - 1) div n"
      using "1.IH" by simp
    have ch: "chunks n xs = take n xs # chunks n (drop n xs)"
      using False "1.prems" by (subst chunks.simps) simp
    have len: "Suc ((length xs - n + n - 1) div n) = (length xs + n - 1) div n"
    proof (cases "n \<le> length xs")
      case True
      then have "length xs + n - 1 = (length xs - 1) + 1 * n" using "1.prems" by simp
      then have "(length xs + n - 1) div n = (length xs - 1) div n + 1"
        using "1.prems" by (metis div_mult_self1 less_numeral_extra(3) add.commute mult.commute mult_1)
      with True show ?thesis by simp
    next
      case f: False
      from False obtain k where k: "length xs = Suc k" by (cases xs) auto
      with f "1.prems" have "(length xs + n - 1) div n = 1"
        by (intro div_nat_eqI) (simp_all only: k, auto)
      moreover from f "1.prems" have "(length xs - n + n - 1) div n = 0" by simp
      ultimately show ?thesis by simp
    qed
    from ih ch False "1.prems" len show ?thesis by auto
  qed
qed

lemma embed_text_or_null: "embed_text t (or_null b) = embed_text t b"
  by (simp add: embed_text_def or_null_def or_empty_def split: option.splits)

lemma reindex_calls:
  "snd (snd (reindex st)) =
     (if embeddingConfig st = None \<or> \<not> vecLoaded st then []
      else map (map (\<lambda>r. embed_text (title r) (body r))) (chunks 128 (missing_rows st)))"
proof (cases "embeddingConfig st")
  case None
  then show ?thesis by (simp add: reindex_def)
next
  case (Some c)
  show ?thesis
  proof (cases "vecLoaded st")
    case False
    with Some show ?thesis by (simp add: reindex_def)
  next
    case True
    show ?thesis
    proof (cases "missing_rows st = []")
      case m: True
      with Some True show ?thesis by (simp add: reindex_def chunks.simps)
    next
      case m: False
      have "snd (snd (reindex st)) = snd (snd (reindex_loop st (missing_rows st) 0 0 []))"
        using Some True m by (simp add: reindex_def Let_def split: prod.splits)
      then show ?thesis
        using Some True by (simp add: reindex_loop_chunks chunks_texts batchSize_def)
    qed
  qed
qed

lemma reindex_counts:
  assumes "fst (reindex st) = Inr (e, t)"
  shows "t = length (missing_rows st) \<and> e \<le> t \<and>
         intel (fst (snd (reindex st))) = intel st \<and>
         (e = t \<longrightarrow> entry_id ` set (intel st) \<subseteq> fst ` set (intel_vec (fst (snd (reindex st)))))"
proof -
  from assms obtain c where c: "embeddingConfig st = Some c" and v: "vecLoaded st"
    by (auto simp: reindex_def split: option.splits if_splits)
  have aj: "missing_rows st = filter (\<lambda>r. entry_id r \<notin> fst ` set (intel_vec st)) (intel st)"
    by (rule missing_rows_anti_join)
  show ?thesis
  proof (cases "missing_rows st = []")
    case True
    with c v assms have "e = 0" "t = 0" "fst (snd (reindex st)) = st"
      by (simp_all add: reindex_def)
    moreover from True aj have "entry_id ` set (intel st) \<subseteq> fst ` set (intel_vec st)"
      by (auto simp: filter_empty_conv)
    ultimately show ?thesis using True by simp
  next
    case False
    obtain s' e' c' where l: "reindex_loop st (missing_rows st) 0 0 [] = (s', e', c')"
      by (metis prod_cases3)
    with c v False assms have r: "e = e'" "t = length (missing_rows st)" "fst (snd (reindex st)) = s'"
      by (simp_all add: reindex_def Let_def)
    note inv = reindex_loop_inv [OF l]
    from inv have st: "s' = st\<lparr>intel_vec := intel_vec s'\<rparr>" by blast
    have i: "intel s' = intel st" by (subst st) simp
    have sub: "fst ` set (intel_vec st) \<subseteq> fst ` set (intel_vec s')" using inv by blast
    have le: "e' \<le> length (missing_rows st)" using inv by simp
    have full: "entry_id ` set (intel st) \<subseteq> fst ` set (intel_vec s')" if "e' = length (missing_rows st)"
    proof
      fix x assume "x \<in> entry_id ` set (intel st)"
      then obtain r where rr: "r \<in> set (intel st)" "x = entry_id r" by auto
      from that inv have m: "entry_id ` set (missing_rows st) \<subseteq> fst ` set (intel_vec s')" by simp
      show "x \<in> fst ` set (intel_vec s')"
      proof (cases "x \<in> fst ` set (intel_vec st)")
        case True
        with sub show ?thesis by blast
      next
        case False
        with rr aj have "r \<in> set (missing_rows st)" by simp
        with m rr show ?thesis by blast
      qed
    qed
    from r i le full show ?thesis by simp
  qed
qed

lemma js_get_snoc: "js_get (ps @ [(i, v)]) k = (if k = i then Some v else js_get ps k)"
  by (simp add: js_get_def)

lemma js_get_filter_other: "k \<noteq> i \<Longrightarrow> js_get (filter (\<lambda>row. fst row \<noteq> i) ps) k = js_get ps k"
proof (induction ps rule: rev_induct)
  case Nil
  then show ?case by simp
next
  case (snoc p ps)
  obtain a b where p: "p = (a, b)" by (cases p)
  with snoc show ?case by (simp add: js_get_snoc)
qed

lemma vec_insert_or_replace_get:
  "vec_insert_or_replace st i v = Inr st' \<Longrightarrow>
   js_get (intel_vec st') k = (if k = i then Some v else js_get (intel_vec st) k)"
  using vec_insert_or_replace_Inr [of st i v st']
  by (simp add: js_get_snoc js_get_filter_other)

lemma upsert_each_get:
  "upsert_each st batch vectors j = Inr st' \<Longrightarrow> distinct (map entry_id batch) \<Longrightarrow>
   (\<forall>k<length batch. js_get (intel_vec st') (entry_id (batch ! k)) =
        Some (float32Buffer (nth_opt vectors (j + k)))) \<and>
   (\<forall>i. i \<notin> entry_id ` set batch \<longrightarrow> js_get (intel_vec st') i = js_get (intel_vec st) i)"
proof (induction batch arbitrary: st j)
  case Nil
  then show ?case by simp
next
  case (Cons r rs)
  from Cons.prems(1) obtain st1 where
    a: "vec_insert_or_replace st (entry_id r) (float32Buffer (nth_opt vectors j)) = Inr st1"
    and b: "upsert_each st1 rs vectors (Suc j) = Inr st'"
    by (auto split: sum.splits)
  from Cons.prems(2) have d: "distinct (map entry_id rs)" and n: "entry_id r \<notin> entry_id ` set rs"
    by simp_all
  note g1 = vec_insert_or_replace_get [OF a]
  from Cons.IH [OF b d]
  have ih1: "\<forall>k<length rs. js_get (intel_vec st') (entry_id (rs ! k)) =
        Some (float32Buffer (nth_opt vectors (Suc j + k)))"
    and ih2: "\<forall>i. i \<notin> entry_id ` set rs \<longrightarrow> js_get (intel_vec st') i = js_get (intel_vec st1) i"
    by blast+
  have p1: "js_get (intel_vec st') (entry_id ((r # rs) ! k)) =
        Some (float32Buffer (nth_opt vectors (j + k)))" if "k < length (r # rs)" for k
  proof (cases k)
    case 0
    with ih2 n g1 show ?thesis by simp
  next
    case (Suc m)
    with that ih1 show ?thesis by simp
  qed
  have p2: "js_get (intel_vec st') i = js_get (intel_vec st) i" if "i \<notin> entry_id ` set (r # rs)" for i
    using that ih2 g1 by simp
  from p1 p2 show ?case by blast
qed

lemma try_batch_vectors:
  assumes "try_batch st batch texts = (st', length batch)" and "batch \<noteq> []"
    and "distinct (map entry_id batch)"
  shows "\<exists>vectors. embed (embeddingConfig st) texts Document = Inr vectors \<and>
           (\<forall>k<length batch. js_get (intel_vec st') (entry_id (batch ! k)) =
              Some (float32Buffer (nth_opt vectors k))) \<and>
           (\<forall>i. i \<notin> entry_id ` set batch \<longrightarrow> js_get (intel_vec st') i = js_get (intel_vec st) i)"
proof (cases "embed (embeddingConfig st) texts Document")
  case (Inl e)
  with assms(1,2) show ?thesis by (simp add: try_batch_def)
next
  case (Inr vectors)
  show ?thesis
  proof (cases "upsert_each st batch vectors 0")
    case (Inl e)
    with Inr assms(1,2) show ?thesis by (simp add: try_batch_def)
  next
    case up: (Inr st2)
    with Inr assms(1) have "st' = st2" by (simp add: try_batch_def)
    with upsert_each_get [OF up assms(3)] Inr show ?thesis by simp
  qed
qed

text \<open>
  C5. \<open>reindex()\<close> is the reindex of the specification (\<open>reindex_spec\<close>): the rows to
  embed are the entries minus the vectors (the LEFT JOIN with \<open>IS NULL\<close> is that
  anti-join); none missing returns \<open>{embedded: 0, total: 0}\<close> at once; otherwise the
  missing rows are cut into consecutive non-empty batches of at most 128, and the gateway
  is called once per batch, in order, with the batch's texts, composed as \<open>add\<close> composes
  them (a stored body is \<open>body || null\<close>, which gives the same text). What a batch does
  is decided by the gateway and the index alone. When the gateway call fails the batch
  changes nothing and counts 0. When the gateway answers and the index takes every
  vector (each has the width of the index; a missing vector is the empty one), the
  batch lands: it counts all its entries and upserts, for its \<open>k\<close>-th entry, the \<open>k\<close>-th
  vector of the answer, touching no table but \<open>intel_vec\<close>; for entries with distinct
  ids the index afterwards is the old rows of other ids followed by the batch's rows.
  When the index refuses one of the vectors the batch changes nothing and counts 0. In
  each case the loop goes on. With a provider configured and the extension loaded the
  call returns \<open>{embedded, total}\<close> with \<open>total\<close> the number of missing rows and
  \<open>embedded\<close> the number of entries in the batches that landed, and the index it leaves
  is the one obtained by upserting those batches in order; when \<open>embedded = total\<close>
  every entry has a vector afterwards.
\<close>

theorem reindex_in_batches:
  "reindex st = reindex_spec st \<and>
   missing_rows st = filter (\<lambda>r. entry_id r \<notin> fst ` set (intel_vec st)) (intel st) \<and>
   concat (chunks 128 (missing_rows st)) = missing_rows st \<and>
   (\<forall>b\<in>set (chunks 128 (missing_rows st)). b \<noteq> [] \<and> length b \<le> 128) \<and>
   snd (snd (reindex st)) =
     (if embeddingConfig st = None \<or> \<not> vecLoaded st then []
      else map (map (\<lambda>r. embed_text (title r) (body r))) (chunks 128 (missing_rows st))) \<and>
   (\<forall>t b. embed_text t (or_null b) = embed_text t b) \<and>
   (\<forall>batch texts e. embed (embeddingConfig st) texts Document = Inl e \<longrightarrow>
      try_batch st batch texts = (st, 0)) \<and>
   (\<forall>batch texts vectors.
      embed (embeddingConfig st) texts Document = Inr vectors \<and>
      (\<forall>k<length batch. vec_width st = Some (length (float32Buffer (nth_opt vectors k)))) \<longrightarrow>
      try_batch st batch texts =
        (st\<lparr>intel_vec := foldl (\<lambda>tbl p. filter (\<lambda>row. fst row \<noteq> fst p) tbl @ [p]) (intel_vec st)
               (map (\<lambda>k. (entry_id (batch ! k), float32Buffer (nth_opt vectors k))) [0..<length batch])\<rparr>,
         length batch)) \<and>
   (\<forall>batch texts vectors k.
      embed (embeddingConfig st) texts Document = Inr vectors \<and> k < length batch \<and>
      vec_width st \<noteq> Some (length (float32Buffer (nth_opt vectors k))) \<longrightarrow>
      try_batch st batch texts = (st, 0)) \<and>
   (\<forall>batch vectors tbl.
      distinct (map entry_id (batch :: entry list)) \<longrightarrow>
      foldl (\<lambda>tbl p. filter (\<lambda>row. fst row \<noteq> fst p) tbl @ [p]) tbl
        (map (\<lambda>k. (entry_id (batch ! k), float32Buffer (nth_opt vectors k))) [0..<length batch]) =
      filter (\<lambda>row. fst row \<notin> entry_id ` set batch) tbl @
        (map (\<lambda>k. (entry_id (batch ! k), float32Buffer (nth_opt vectors k))) [0..<length batch])) \<and>
   (\<forall>vectors k. float32Buffer (nth_opt vectors k) = (if k < length vectors then vectors ! k else [])) \<and>
   (\<forall>batch texts st' n. try_batch st batch texts = (st', n) \<longrightarrow>
      n = 0 \<and> st' = st \<or>
      n = length batch \<and> st' = st\<lparr>intel_vec := intel_vec st'\<rparr> \<and>
      fst ` set (intel_vec st') = fst ` set (intel_vec st) \<union> entry_id ` set batch) \<and>
   (\<forall>batch texts st'.
      batch \<noteq> [] \<and> distinct (map entry_id batch) \<and>
      try_batch st batch texts = (st', length batch) \<longrightarrow>
      (\<exists>vectors. embed (embeddingConfig st) texts Document = Inr vectors \<and>
         (\<forall>k<length batch. js_get (intel_vec st') (entry_id (batch ! k)) =
            Some (float32Buffer (nth_opt vectors k))) \<and>
         (\<forall>i. i \<notin> entry_id ` set batch \<longrightarrow>
            js_get (intel_vec st') i = js_get (intel_vec st) i))) \<and>
   (\<forall>e t. fst (reindex st) = Inr (e, t) \<longrightarrow>
      t = length (missing_rows st) \<and> e \<le> t \<and>
      intel (fst (snd (reindex st))) = intel st \<and>
      (e = t \<longrightarrow> entry_id ` set (intel st) \<subseteq> fst ` set (intel_vec (fst (snd (reindex st)))))) \<and>
   (\<forall>c. embeddingConfig st = Some c \<and> vecLoaded st \<longrightarrow>
      reindex st =
        (Inr (sum_list (map length
               (filter (\<lambda>b. case embed (embeddingConfig st) (map (\<lambda>r. embed_text (title r) (body r)) b) Document of
                               Inl x \<Rightarrow> False
                             | Inr vectors \<Rightarrow> (\<forall>k<length b. vec_width st = Some (length (float32Buffer (nth_opt vectors k)))))
                  (chunks 128 (missing_rows st)))),
              length (missing_rows st)),
         st\<lparr>intel_vec :=
             foldl (\<lambda>tbl b.
                      case embed (embeddingConfig st) (map (\<lambda>r. embed_text (title r) (body r)) b) Document of
                        Inl x \<Rightarrow> tbl
                      | Inr vectors \<Rightarrow>
                          if (\<forall>k<length b. vec_width st = Some (length (float32Buffer (nth_opt vectors k))))
                          then foldl (\<lambda>tbl p. filter (\<lambda>row. fst row \<noteq> fst p) tbl @ [p]) tbl
                                 (map (\<lambda>k. (entry_id (b ! k), float32Buffer (nth_opt vectors k))) [0..<length b])
                          else tbl)
               (intel_vec st) (chunks 128 (missing_rows st))\<rparr>,
         map (map (\<lambda>r. embed_text (title r) (body r))) (chunks 128 (missing_rows st))))"
proof (intro conjI)
  show "reindex st = reindex_spec st" by (rule reindex_refines_spec)
  show "missing_rows st = filter (\<lambda>r. entry_id r \<notin> fst ` set (intel_vec st)) (intel st)"
    by (rule missing_rows_anti_join)
  show "concat (chunks 128 (missing_rows st)) = missing_rows st"
    using chunks_props [of 128 "missing_rows st"] by simp
  show "\<forall>b\<in>set (chunks 128 (missing_rows st)). b \<noteq> [] \<and> length b \<le> 128"
    using chunks_props [of 128 "missing_rows st"] by simp
  show "snd (snd (reindex st)) =
     (if embeddingConfig st = None \<or> \<not> vecLoaded st then []
      else map (map (\<lambda>r. embed_text (title r) (body r))) (chunks 128 (missing_rows st)))"
    by (rule reindex_calls)
  show "\<forall>t b. embed_text t (or_null b) = embed_text t b"
    by (simp add: embed_text_or_null)
  show "\<forall>batch texts e. embed (embeddingConfig st) texts Document = Inl e \<longrightarrow>
      try_batch st batch texts = (st, 0)"
    by (simp add: try_batch_def)
  show "\<forall>batch texts vectors.
      embed (embeddingConfig st) texts Document = Inr vectors \<and>
      (\<forall>k<length batch. vec_width st = Some (length (float32Buffer (nth_opt vectors k)))) \<longrightarrow>
      try_batch st batch texts =
        (st\<lparr>intel_vec := foldl (\<lambda>tbl p. filter (\<lambda>row. fst row \<noteq> fst p) tbl @ [p]) (intel_vec st)
               (map (\<lambda>k. (entry_id (batch ! k), float32Buffer (nth_opt vectors k))) [0..<length batch])\<rparr>,
         length batch)"
    by (intro allI) (rule try_batch_lands)
  show "\<forall>batch texts vectors k.
      embed (embeddingConfig st) texts Document = Inr vectors \<and> k < length batch \<and>
      vec_width st \<noteq> Some (length (float32Buffer (nth_opt vectors k))) \<longrightarrow>
      try_batch st batch texts = (st, 0)"
    by (intro allI) (rule try_batch_refused)
  show "\<forall>batch vectors tbl.
      distinct (map entry_id (batch :: entry list)) \<longrightarrow>
      foldl (\<lambda>tbl p. filter (\<lambda>row. fst row \<noteq> fst p) tbl @ [p]) tbl
        (map (\<lambda>k. (entry_id (batch ! k), float32Buffer (nth_opt vectors k))) [0..<length batch]) =
      filter (\<lambda>row. fst row \<notin> entry_id ` set batch) tbl @
        (map (\<lambda>k. (entry_id (batch ! k), float32Buffer (nth_opt vectors k))) [0..<length batch])"
    by (intro allI) (rule batch_lands_closed)
  show "\<forall>vectors k. float32Buffer (nth_opt vectors k) = (if k < length vectors then vectors ! k else [])"
    by (simp add: float32Buffer_def nth_opt_def)
  show "\<forall>batch texts st' n. try_batch st batch texts = (st', n) \<longrightarrow>
      n = 0 \<and> st' = st \<or>
      n = length batch \<and> st' = st\<lparr>intel_vec := intel_vec st'\<rparr> \<and>
      fst ` set (intel_vec st') = fst ` set (intel_vec st) \<union> entry_id ` set batch"
    using try_batch_cases by blast
  show "\<forall>batch texts st'.
      batch \<noteq> [] \<and> distinct (map entry_id batch) \<and>
      try_batch st batch texts = (st', length batch) \<longrightarrow>
      (\<exists>vectors. embed (embeddingConfig st) texts Document = Inr vectors \<and>
         (\<forall>k<length batch. js_get (intel_vec st') (entry_id (batch ! k)) =
            Some (float32Buffer (nth_opt vectors k))) \<and>
         (\<forall>i. i \<notin> entry_id ` set batch \<longrightarrow>
            js_get (intel_vec st') i = js_get (intel_vec st) i))"
    using try_batch_vectors by blast
  show "\<forall>e t. fst (reindex st) = Inr (e, t) \<longrightarrow>
      t = length (missing_rows st) \<and> e \<le> t \<and>
      intel (fst (snd (reindex st))) = intel st \<and>
      (e = t \<longrightarrow> entry_id ` set (intel st) \<subseteq> fst ` set (intel_vec (fst (snd (reindex st)))))"
    using reindex_counts by blast
  show "\<forall>c. embeddingConfig st = Some c \<and> vecLoaded st \<longrightarrow>
      reindex st =
        (Inr (sum_list (map length
               (filter (\<lambda>b. case embed (embeddingConfig st) (map (\<lambda>r. embed_text (title r) (body r)) b) Document of
                               Inl x \<Rightarrow> False
                             | Inr vectors \<Rightarrow> (\<forall>k<length b. vec_width st = Some (length (float32Buffer (nth_opt vectors k)))))
                  (chunks 128 (missing_rows st)))),
              length (missing_rows st)),
         st\<lparr>intel_vec :=
             foldl (\<lambda>tbl b.
                      case embed (embeddingConfig st) (map (\<lambda>r. embed_text (title r) (body r)) b) Document of
                        Inl x \<Rightarrow> tbl
                      | Inr vectors \<Rightarrow>
                          if (\<forall>k<length b. vec_width st = Some (length (float32Buffer (nth_opt vectors k))))
                          then foldl (\<lambda>tbl p. filter (\<lambda>row. fst row \<noteq> fst p) tbl @ [p]) tbl
                                 (map (\<lambda>k. (entry_id (b ! k), float32Buffer (nth_opt vectors k))) [0..<length b])
                          else tbl)
               (intel_vec st) (chunks 128 (missing_rows st))\<rparr>,
         map (map (\<lambda>r. embed_text (title r) (body r))) (chunks 128 (missing_rows st)))"
    by (intro allI) (rule reindex_run)
qed

text \<open>
  C5, witness. Three unembedded entries behind a working gateway: one batch, one call,
  \<open>{embedded: 3, total: 3}\<close>, and the three vectors are in the index. The same entries
  behind an unreachable provider: the batch is skipped, \<open>{embedded: 0, total: 3}\<close>.
  Three entries whose vectors of length 2 meet an index of width 3: the batch is rolled
  back, \<open>{embedded: 0, total: 3}\<close>. 130 entries behind a gateway that refuses large
  requests: two calls of 128 and 2 texts, the first batch is skipped, the second lands,
  \<open>{embedded: 2, total: 130}\<close>. The same 130 entries behind the working gateway: the
  full batch of 128 and the batch of 2 both land, \<open>{embedded: 130, total: 130}\<close>, and
  the index holds the ids 1 to 130.
\<close>

theorem reindex_in_batches_witness:
  "fst (reindex backfill_store) = Inr (3, 3) \<and>
   snd (snd (reindex backfill_store)) =
     [[''Test signal. AAPL looking strong'', ''Morning Brew digest. Fed rate cut expected'',
       ''Crypto rally. BTC above 70K'']] \<and>
   intel_vec (fst (snd (reindex backfill_store))) = [(1, [32, 4]), (2, [42, 6]), (3, [27, 4])] \<and>
   fst (reindex offline_store) = Inr (0, 3) \<and>
   intel_vec (fst (snd (reindex offline_store))) = [] \<and>
   vec_width wide_store = Some 3 \<and>
   fst (reindex wide_store) = Inr (0, 3) \<and>
   intel_vec (fst (snd (reindex wide_store))) = [] \<and>
   (case reindex bulk_store of (r, st, calls) \<Rightarrow> (r, map fst (intel_vec st), map length calls)) =
     (Inr (2, 130), [129, 130], [128, 2]) \<and>
   fst (reindex bulk_toy_store) = Inr (130, 130) \<and>
   map length (snd (snd (reindex bulk_toy_store))) = [128, 2] \<and>
   map fst (intel_vec (fst (snd (reindex bulk_toy_store)))) = [1..<131]"
proof -
  note T = reindex_in_batches [of bulk_toy_store]
  define g :: "string \<Rightarrow> vector" where
    "g = (\<lambda>t. [real (length t), real (length (filter (\<lambda>c. c = CHR '' '') t))])"
  define b1 where "b1 = map bulk_entry [1..<129]"
  define b2 where "b2 = map bulk_entry [129..<131]"
  have cfg: "embeddingConfig bulk_toy_store = Some toy_config" "vecLoaded bulk_toy_store"
    "vec_width bulk_toy_store = Some 2" "intel_vec bulk_toy_store = []"
    "intel bulk_toy_store = map bulk_entry [1..<131]"
    by (simp_all add: bulk_toy_store_def OpenIntel_def)
  have miss: "missing_rows bulk_toy_store = map bulk_entry [1..<131]"
    using T [THEN conjunct2, THEN conjunct1] by (simp add: cfg)
  have ch: "chunks 128 (map bulk_entry [1..<131]) = [b1, b2]"
    unfolding b1_def b2_def
    apply (subst chunks.simps, simp add: take_map drop_map del: upt_rec_numeral)
    apply (subst chunks.simps, simp add: take_map drop_map del: upt_rec_numeral)
    apply (subst chunks.simps, simp del: upt_rec_numeral)
    done
  have e: "embed (Some toy_config) texts Document = Inr (map g texts)" for texts
    by (simp add: embed_def toy_config_def toy_embedFn_def g_def)
  have fit: "(\<forall>k<length (b :: entry list). Some 2 =
          Some (length (float32Buffer (nth_opt (map g (map (\<lambda>r. embed_text (title r) (body r)) b)) k)))) = True" for b
    by (simp add: float32Buffer_def nth_opt_def g_def)
  have l: "length b1 = 128" "length b2 = 2" "map entry_id b1 = [1..<129]" "map entry_id b2 = [129..<131]"
    by (simp_all add: b1_def b2_def bulk_entry_def comp_def del: upt_rec_numeral)
  have d: "distinct (map entry_id b1)" "distinct (map entry_id b2)"
    by (simp_all only: l distinct_upt)
  note run = T [THEN conjunct2, THEN conjunct2, THEN conjunct2, THEN conjunct2, THEN conjunct2,
                THEN conjunct2, THEN conjunct2, THEN conjunct2, THEN conjunct2, THEN conjunct2,
                THEN conjunct2, THEN conjunct2, THEN conjunct2, THEN conjunct2,
                rule_format, of toy_config, OF conjI [OF cfg(1) cfg(2)]]
  define t1 where "t1 = foldl (\<lambda>tbl p. filter (\<lambda>row. fst row \<noteq> fst p) tbl @ [p]) []
            (map (\<lambda>k. (entry_id (b1 ! k), float32Buffer (nth_opt (map g (map (\<lambda>r. embed_text (title r) (body r)) b1)) k))) [0..<length b1])"
  define t2 where "t2 = foldl (\<lambda>tbl p. filter (\<lambda>row. fst row \<noteq> fst p) tbl @ [p]) t1
            (map (\<lambda>k. (entry_id (b2 ! k), float32Buffer (nth_opt (map g (map (\<lambda>r. embed_text (title r) (body r)) b2)) k))) [0..<length b2])"
  have r: "reindex bulk_toy_store =
      (Inr (sum_list (map length [b1, b2]), length (map bulk_entry [1..<131])),
       bulk_toy_store\<lparr>intel_vec := t2\<rparr>,
       map (map (\<lambda>r. embed_text (title r) (body r))) [b1, b2])"
    apply (subst run)
    apply (simp only: miss ch)
    apply (simp only: cfg e sum.case fit if_True filter.simps list.map foldl_Cons foldl_Nil
             t1_def [symmetric] t2_def [symmetric])
    done
  have k1: "map fst t1 = [1..<129]"
    unfolding t1_def using foldl_upsert_keys [OF d(1), of "[]"] by (simp add: l)
  have "entry_id ` set b2 \<inter> fst ` set t1 = set (map entry_id b2) \<inter> set (map fst t1)"
    by simp
  also have "\<dots> = {}" unfolding k1 l by auto
  finally have "map fst t2 = map fst t1 @ map entry_id b2"
    unfolding t2_def by (rule foldl_upsert_keys [OF d(2)])
  also have "\<dots> = [1..<131]"
    unfolding k1 l using upt_add_eq_append [of 1 129 2] by simp
  finally have k2: "map fst t2 = [1..<131]" .
  have m: "fst (reindex bulk_toy_store) = Inr (130, 130)"
    "map length (snd (snd (reindex bulk_toy_store))) = [128, 2]"
    "map fst (intel_vec (fst (snd (reindex bulk_toy_store)))) = [1..<131]"
    unfolding r using k2 by (simp_all add: l del: upt_rec_numeral)
  have a: "fst (reindex backfill_store) = Inr (3, 3)"
    by code_simp
  have b: "snd (snd (reindex backfill_store)) =
     [[''Test signal. AAPL looking strong'', ''Morning Brew digest. Fed rate cut expected'',
       ''Crypto rally. BTC above 70K'']]"
    by code_simp
  have c: "intel_vec (fst (snd (reindex backfill_store))) = [(1, [32, 4]), (2, [42, 6]), (3, [27, 4])]"
    by code_simp
  have d': "fst (reindex offline_store) = Inr (0, 3)"
    by code_simp
  have e': "intel_vec (fst (snd (reindex offline_store))) = []"
    by code_simp
  have w: "vec_width wide_store = Some 3" "fst (reindex wide_store) = Inr (0, 3)"
    "intel_vec (fst (snd (reindex wide_store))) = []"
    by code_simp+
  have f: "(case reindex bulk_store of (r, st, calls) \<Rightarrow> (r, map fst (intel_vec st), map length calls)) =
     (Inr (2, 130), [129, 130], [128, 2])"
    by code_simp
  from a b c d' e' w f m show ?thesis by simp
qed

text \<open>
  C8, as the code has it. When a call of \<open>reindex()\<close> reports \<open>embedded = total\<close>
  (nothing was missing, or every batch landed), a second call on the store it leaves
  returns \<open>{embedded: 0, total: 0}\<close>, calls the gateway not at all and changes nothing.
\<close>

theorem reindex_twice:
  assumes "reindex st = (Inr (k, k), st', calls)"
  shows "reindex st' = (Inr (0, 0), st', [])"
proof -
  from assms have f: "fst (reindex st) = Inr (k, k)" and s: "fst (snd (reindex st)) = st'"
    by simp_all
  from assms obtain c where c: "embeddingConfig st = Some c" and v: "vecLoaded st"
    by (auto simp: reindex_def split: option.splits if_splits)
  from reindex_Inr_store [OF assms] have st: "st' = st\<lparr>intel_vec := intel_vec st'\<rparr>" .
  have c': "embeddingConfig st' = Some c" by (subst st) (simp add: c)
  have v': "vecLoaded st'" by (subst st) (simp add: v)
  have i: "intel st' = intel st" by (subst st) simp
  from reindex_counts [OF f] s have "entry_id ` set (intel st) \<subseteq> fst ` set (intel_vec st')"
    by simp
  with i have "missing_rows st' = []"
    by (auto simp: missing_rows_anti_join filter_empty_conv)
  with c' v' show ?thesis by (simp add: reindex_def)
qed

text \<open>
  C8, witness: three unembedded entries, a working gateway; the first call reports
  3 of 3, the second 0 of 0.
\<close>

theorem reindex_twice_witness:
  "fst (reindex backfill_store) = Inr (3, 3) \<and>
   fst (reindex (fst (snd (reindex backfill_store)))) = Inr (0, 0)"
proof -
  have a: "fst (reindex backfill_store) = Inr (3, 3)"
    by code_simp
  then have "reindex backfill_store =
      (Inr (3, 3), fst (snd (reindex backfill_store)), snd (snd (reindex backfill_store)))"
    by (metis prod.collapse)
  from reindex_twice [OF this] a show ?thesis by simp
qed

text \<open>
  C8, counterexample to the claim as stated (every store state): with the provider
  unreachable the first \<open>reindex()\<close> embeds none of the three missing entries, and the
  second call, with no write in between, reports \<open>{embedded: 0, total: 3}\<close> again.
\<close>

theorem reindex_twice_counterexample:
  "fst (reindex offline_store) = Inr (0, 3) \<and>
   fst (reindex (fst (snd (reindex offline_store)))) = Inr (0, 3)"
  by code_simp

section \<open>The tag filter of query\<close>

lemma wildcard_free_quoted: "wildcard_free t \<Longrightarrow> wildcard_free (dquote # t @ [dquote])"
  by (simp add: wildcard_free_def dquote_def)

lemma tag_pattern_nocase:
  "wildcard_free t \<Longrightarrow>
   like (tag_pattern t) s = includes_nocase s (dquote # t @ [dquote])"
  using like_substring_nocase [OF wildcard_free_quoted, of t s] by (simp add: tag_pattern_def)

lemma query_where_tag:
  "opt_tag options = Some t \<Longrightarrow> t \<noteq> [] \<Longrightarrow>
   query_where cat options r \<longleftrightarrow>
     query_where cat (options\<lparr>opt_tag := None\<rparr>) r \<and> like (tag_pattern t) (tags_column r)"
  by (simp add: query_where_def or_null_def)

lemma query_subset: "set (query st cat options) \<subseteq> {r \<in> set (intel st). query_where cat options r}"
  unfolding query_def using set_take_subset [of "or_default 20 (opt_limit options)"]
  by (fastforce simp: set_sort_desc)

lemma query_all_rows:
  "length (intel st) \<le> or_default 20 (opt_limit options) \<Longrightarrow>
   set (query st cat options) = {r \<in> set (intel st). query_where cat options r}"
proof -
  assume "length (intel st) \<le> or_default 20 (opt_limit options)"
  moreover have "length (sort_desc created_at (filter (query_where cat options) (intel st))) \<le> length (intel st)"
    by (simp add: length_sort_desc)
  ultimately show ?thesis
    by (simp add: query_def set_sort_desc)
qed

lemma ascii_lower_dquote: "ascii_lower c = dquote \<longleftrightarrow> c = dquote"
proof (cases "map_of ascii_letters c")
  case None
  then show ?thesis by (simp add: ascii_lower_def)
next
  case (Some l)
  then have "(c, l) \<in> set ascii_letters" by (rule map_of_SomeD)
  then have "l \<noteq> dquote \<and> c \<noteq> dquote"
    by (auto simp: ascii_letters_def dquote_def)
  with Some show ?thesis by (simp add: ascii_lower_def)
qed

lemma like_char_dquote: "like_char p dquote \<longleftrightarrow> p = dquote" "like_char dquote c \<longleftrightarrow> c = dquote"
  using ascii_lower_dquote [of p] ascii_lower_dquote [of c] ascii_lower_dquote [of dquote]
  by (auto simp: like_char_def)

lemma same_nocase_dquote:
  "list_all2 like_char t u \<Longrightarrow> dquote \<in> set u \<longleftrightarrow> dquote \<in> set t"
  by (induction rule: list_all2_induct) (auto simp: like_char_dquote)

lemma startsWith_nocase_iff:
  "startsWith_nocase s p \<longleftrightarrow> (\<exists>u post. s = u @ post \<and> list_all2 like_char p u)"
proof (induction s p rule: startsWith_nocase.induct)
  case (1 s)
  then show ?case by simp
next
  case (2 t ts)
  then show ?case by (simp add: list_all2_Cons1)
next
  case (3 c cs t ts)
  show ?case
  proof
    assume "startsWith_nocase (c # cs) (t # ts)"
    with 3 obtain u post where "cs = u @ post" "list_all2 like_char ts u" "like_char t c"
      by auto
    then have "c # cs = (c # u) @ post \<and> list_all2 like_char (t # ts) (c # u)" by simp
    then show "\<exists>u post. c # cs = u @ post \<and> list_all2 like_char (t # ts) u" by blast
  next
    assume "\<exists>u post. c # cs = u @ post \<and> list_all2 like_char (t # ts) u"
    then obtain u post where e: "c # cs = u @ post" and l: "list_all2 like_char (t # ts) u" by blast
    from l obtain d ds where u: "u = d # ds" "like_char t d" "list_all2 like_char ts ds"
      by (auto simp: list_all2_Cons1)
    with e have "c = d" "cs = ds @ post" by simp_all
    with u 3 show "startsWith_nocase (c # cs) (t # ts)" by auto
  qed
qed

lemma includes_nocase_iff:
  "includes_nocase s p \<longleftrightarrow> (\<exists>pre u post. s = pre @ u @ post \<and> list_all2 like_char p u)"
proof (induction s)
  case Nil
  then show ?case by auto
next
  case (Cons c cs)
  show ?case
  proof
    assume "includes_nocase (c # cs) p"
    then consider "startsWith_nocase (c # cs) p" | "includes_nocase cs p" by auto
    then show "\<exists>pre u post. c # cs = pre @ u @ post \<and> list_all2 like_char p u"
    proof cases
      case 1
      then obtain u post where "c # cs = u @ post" "list_all2 like_char p u"
        by (auto simp: startsWith_nocase_iff)
      then have "c # cs = [] @ u @ post \<and> list_all2 like_char p u" by simp
      then show ?thesis by blast
    next
      case 2
      with Cons obtain pre u post where "cs = pre @ u @ post" "list_all2 like_char p u" by blast
      then have "c # cs = (c # pre) @ u @ post \<and> list_all2 like_char p u" by simp
      then show ?thesis by blast
    qed
  next
    assume "\<exists>pre u post. c # cs = pre @ u @ post \<and> list_all2 like_char p u"
    then obtain pre u post where e: "c # cs = pre @ u @ post" and l: "list_all2 like_char p u" by blast
    show "includes_nocase (c # cs) p"
    proof (cases pre)
      case Nil
      with e l have "startsWith_nocase (c # cs) p"
        by (auto simp: startsWith_nocase_iff)
      then show ?thesis by simp
    next
      case (Cons d ds)
      with e have "cs = ds @ u @ post" by simp
      with l Cons.IH have "includes_nocase cs p" by blast
      then show ?thesis by simp
    qed
  qed
qed

lemma first_quote:
  assumes "dquote \<notin> set a" and "a @ dquote # r = b @ dquote # r'"
  shows "a = b \<and> r = r' \<or> (\<exists>m. b = a @ dquote # m \<and> r = m @ dquote # r')"
proof -
  from assms(2) obtain us where
    "a = b @ us \<and> us @ dquote # r = dquote # r' \<or> a @ us = b \<and> dquote # r = us @ dquote # r'"
    by (auto simp: append_eq_append_conv2)
  then show ?thesis
  proof
    assume h: "a = b @ us \<and> us @ dquote # r = dquote # r'"
    show ?thesis
    proof (cases us)
      case Nil
      with h show ?thesis by simp
    next
      case (Cons c cs)
      with h have "c = dquote" by simp
      with h Cons assms(1) show ?thesis by simp
    qed
  next
    assume h: "a @ us = b \<and> dquote # r = us @ dquote # r'"
    show ?thesis
    proof (cases us)
      case Nil
      with h show ?thesis by simp
    next
      case (Cons c cs)
      with h have "c = dquote" "r = cs @ dquote # r'" by simp_all
      with h Cons show ?thesis by auto
    qed
  qed
qed

lemma join_comma_Cons:
  "join_comma (y # ys) = y @ (if ys = [] then [] else CHR '','' # join_comma ys)"
  by (cases ys) simp_all

lemma join_comma_contains:
  "x \<in> set ys \<Longrightarrow> \<exists>pre post. join_comma ys = pre @ x @ post"
proof (induction ys)
  case Nil
  then show ?case by simp
next
  case (Cons y ys)
  show ?case
  proof (cases "x = y")
    case True
    have "join_comma (y # ys) = [] @ y @ (if ys = [] then [] else CHR '','' # join_comma ys)"
      by (simp add: join_comma_Cons)
    with True show ?thesis by blast
  next
    case False
    with Cons.prems have xin: "x \<in> set ys" by simp
    then have ne: "ys \<noteq> []" by auto
    from Cons.IH [OF xin] obtain pre post where "join_comma ys = pre @ x @ post" by blast
    with ne have "join_comma (y # ys) = (y @ CHR '','' # pre) @ x @ post"
      by (simp add: join_comma_Cons)
    then show ?thesis by blast
  qed
qed

lemma quoted_segment:
  assumes "\<forall>x\<in>set ts. dquote \<notin> set x" and "dquote \<notin> set tail" and "dquote \<notin> set u"
    and "join_comma (map (\<lambda>x. dquote # x @ [dquote]) ts) @ tail = pre @ dquote # u @ dquote # post"
  shows "u \<in> set ts \<or> u = '',''"
  using assms
proof (induction ts arbitrary: pre)
  case Nil
  then have "dquote \<in> set tail" by simp
  with Nil show ?case by simp
next
  case (Cons x xs)
  let ?J = "join_comma (map (\<lambda>x. dquote # x @ [dquote]) xs)"
  define R where "R = (if xs = [] then tail else CHR '','' # ?J @ tail)"
  have x: "dquote \<notin> set x" using Cons.prems(1) by simp
  have "join_comma (map (\<lambda>x. dquote # x @ [dquote]) (x # xs)) @ tail = dquote # x @ dquote # R"
    by (cases "xs = []") (simp_all add: join_comma_Cons R_def)
  with Cons.prems(4) have whole: "dquote # x @ dquote # R = pre @ dquote # u @ dquote # post"
    by simp
  have R_tail: "xs = [] \<Longrightarrow> dquote \<notin> set R" using Cons.prems(2) by (simp add: R_def)
  have R_more: "xs \<noteq> [] \<Longrightarrow> \<exists>z. R = CHR '','' # dquote # z"
  proof -
    assume "xs \<noteq> []"
    then obtain y ys where "xs = y # ys" by (cases xs) auto
    then show ?thesis by (simp add: R_def join_comma_Cons)
  qed
  have comma: "dquote \<notin> set '',''" by (simp add: dquote_def)
  show ?case
  proof (cases pre)
    case Nil
    with whole have "x @ dquote # R = u @ dquote # post" by simp
    from first_quote [OF x this] Cons.prems(3) show ?thesis by auto
  next
    case (Cons c pre')
    with whole have "x @ dquote # R = pre' @ dquote # u @ dquote # post" by simp
    from first_quote [OF x this]
    consider (A) "R = u @ dquote # post" | (B) m where "R = m @ dquote # u @ dquote # post"
      by blast
    then show ?thesis
    proof cases
      case A
      show ?thesis
      proof (cases "xs = []")
        case True
        with R_tail A show ?thesis by simp
      next
        case False
        with R_more obtain z where "R = CHR '','' # dquote # z" by blast
        with A have "'','' @ dquote # z = u @ dquote # post" by simp
        from first_quote [OF comma this] Cons.prems(3) show ?thesis by auto
      qed
    next
      case B
      show ?thesis
      proof (cases "xs = []")
        case True
        with R_tail B show ?thesis by simp
      next
        case False
        with B have e: "CHR '','' # ?J @ tail = m @ dquote # u @ dquote # post" by (simp add: R_def)
        then obtain m' where "m = CHR '','' # m'"
          by (cases m) (auto simp: dquote_def)
        with e have "?J @ tail = m' @ dquote # u @ dquote # post" by simp
        from Cons.IH [OF _ Cons.prems(2,3) this] Cons.prems(1) show ?thesis by auto
      qed
    qed
  qed
qed

lemma plain_text_stringify:
  "plain_text x \<Longrightarrow> JSON_stringify_string x = dquote # x @ [dquote] \<and> dquote \<notin> set x"
proof -
  assume p: "plain_text x"
  have "concat (map json_escape x) = x \<and> dquote \<notin> set x"
    using p unfolding plain_text_def
  proof (induction x)
    case Nil
    then show ?case by simp
  next
    case (Cons c cs)
    then have "json_escape c = [c]" by simp
    moreover from this have "c \<noteq> dquote" by (auto simp: json_escape_def)
    ultimately show ?case using Cons by simp
  qed
  then show ?thesis by (simp add: JSON_stringify_string_def)
qed

lemma tag_filter_membership:
  assumes w: "wildcard_free t" and q: "dquote \<notin> set t" and c: "t \<noteq> '',''"
    and p: "list_all plain_text ts"
  shows "like (tag_pattern t) (JSON_stringify ts) \<longleftrightarrow> (\<exists>x\<in>set ts. list_all2 like_char t x)"
proof -
  let ?q = "\<lambda>x. dquote # x @ [dquote]"
  have m: "map JSON_stringify_string ts = map ?q ts"
    using p plain_text_stringify by (simp add: list_all_iff)
  have nq: "\<forall>x\<in>set ts. dquote \<notin> set x"
    using p plain_text_stringify by (auto simp: list_all_iff)
  have S: "JSON_stringify ts = CHR ''['' # join_comma (map ?q ts) @ '']''"
    by (simp add: JSON_stringify_def m)
  have l: "like (tag_pattern t) (JSON_stringify ts) \<longleftrightarrow> includes_nocase (JSON_stringify ts) (?q t)"
    by (rule tag_pattern_nocase [OF w])
  show ?thesis
  proof
    assume "like (tag_pattern t) (JSON_stringify ts)"
    with l obtain pre v post where e: "JSON_stringify ts = pre @ v @ post" and v: "list_all2 like_char (?q t) v"
      by (auto simp: includes_nocase_iff)
    from v obtain a u b where vv: "v = a # u @ [b]" "like_char dquote a" "list_all2 like_char t u" "like_char dquote b"
      by (auto simp: list_all2_Cons1 list_all2_append1)
    then have ab: "a = dquote" "b = dquote" by (simp_all add: like_char_dquote)
    have uq: "dquote \<notin> set u" using same_nocase_dquote [OF vv(3)] q by simp
    from e vv ab S have e2: "CHR ''['' # join_comma (map ?q ts) @ '']'' = pre @ dquote # u @ dquote # post"
      by simp
    then obtain pre' where "pre = CHR ''['' # pre'"
      by (cases pre) (auto simp: dquote_def)
    with e2 have "join_comma (map ?q ts) @ '']'' = pre' @ dquote # u @ dquote # post" by simp
    from quoted_segment [OF nq _ uq this] have "u \<in> set ts \<or> u = '',''"
      by (simp add: dquote_def)
    moreover have "u \<noteq> '',''"
    proof
      assume "u = '',''"
      with vv(3) obtain d where "t = [d]" "like_char d CHR '',''"
        by (auto simp: list_all2_Cons2)
      moreover have "ascii_lower CHR '','' = CHR '',''"
        by (simp add: ascii_lower_def ascii_letters_def)
      moreover have "ascii_lower d = CHR '','' \<Longrightarrow> d = CHR '',''"
      proof (cases "map_of ascii_letters d")
        case None
        then show "ascii_lower d = CHR '','' \<Longrightarrow> d = CHR '',''" by (simp add: ascii_lower_def)
      next
        case (Some l)
        then have "(d, l) \<in> set ascii_letters" by (rule map_of_SomeD)
        then have "l \<noteq> CHR '',''" by (auto simp: ascii_letters_def)
        with Some show "ascii_lower d = CHR '','' \<Longrightarrow> d = CHR '',''" by (simp add: ascii_lower_def)
      qed
      ultimately show False using c by (simp add: like_char_def)
    qed
    ultimately show "\<exists>x\<in>set ts. list_all2 like_char t x" using vv(3) by blast
  next
    assume "\<exists>x\<in>set ts. list_all2 like_char t x"
    then obtain x where x: "x \<in> set ts" "list_all2 like_char t x" by blast
    then have "?q x \<in> set (map ?q ts)" by simp
    from join_comma_contains [OF this] obtain pre post where
      "join_comma (map ?q ts) = pre @ ?q x @ post" by blast
    with S have "JSON_stringify ts = (CHR ''['' # pre) @ ?q x @ (post @ '']'')" by simp
    moreover have "list_all2 like_char (?q t) (?q x)"
      using x(2) by (simp add: list_all2_appendI like_char_def)
    ultimately have "includes_nocase (JSON_stringify ts) (?q t)"
      unfolding includes_nocase_iff by blast
    with l show "like (tag_pattern t) (JSON_stringify ts)" by simp
  qed
qed

text \<open>
  C7, as the code has it. With a non-empty tag \<open>t\<close>, \<open>query\<close> adds one condition to
  its WHERE clause: the serialized tag list matches the LIKE pattern \<open>%"t"%\<close>, the tag
  text between double quotes. Every row returned satisfies it; with no other filter and
  a limit that covers the table, the rows returned are exactly the rows that satisfy it.
  When \<open>t\<close> has neither \<open>%\<close> nor \<open>_\<close>, a row satisfies it exactly when its serialized
  tag list contains \<open>"t"\<close>, quotes included, up to ASCII case. When moreover \<open>t\<close> has no
  double quote and is not the single comma, and no tag of the row has a character that
  JSON escapes, the row satisfies it exactly when one of its tags is \<open>t\<close> up to ASCII
  case: a tag that is only a part of a stored tag does not match.
\<close>

theorem query_tag_filter:
  assumes "opt_tag options = Some t" and "t \<noteq> []"
  shows "(query_where cat options r \<longleftrightarrow>
            query_where cat (options\<lparr>opt_tag := None\<rparr>) r \<and> like (tag_pattern t) (tags_column r)) \<and>
         set (query st cat options) \<subseteq>
            {r \<in> set (intel st). like (tag_pattern t) (tags_column r)} \<and>
         (length (intel st) \<le> or_default 20 (opt_limit options) \<longrightarrow>
            set (query st ''all'' (options\<lparr>opt_since := None\<rparr>)) =
              {r \<in> set (intel st). like (tag_pattern t) (tags_column r)}) \<and>
         (wildcard_free t \<longrightarrow>
            like (tag_pattern t) (tags_column r) =
              includes_nocase (JSON_stringify (tags r)) (dquote # t @ [dquote])) \<and>
         (wildcard_free t \<and> dquote \<notin> set t \<and> t \<noteq> '','' \<and> list_all plain_text (tags r) \<longrightarrow>
            like (tag_pattern t) (tags_column r) = (\<exists>x\<in>set (tags r). list_all2 like_char t x))"
proof (intro conjI)
  show "query_where cat options r \<longleftrightarrow>
            query_where cat (options\<lparr>opt_tag := None\<rparr>) r \<and> like (tag_pattern t) (tags_column r)"
    by (rule query_where_tag [OF assms])
  show "set (query st cat options) \<subseteq> {r \<in> set (intel st). like (tag_pattern t) (tags_column r)}"
    using query_subset [of st cat options] query_where_tag [OF assms] by blast
  show "length (intel st) \<le> or_default 20 (opt_limit options) \<longrightarrow>
            set (query st ''all'' (options\<lparr>opt_since := None\<rparr>)) =
              {r \<in> set (intel st). like (tag_pattern t) (tags_column r)}"
  proof
    assume "length (intel st) \<le> or_default 20 (opt_limit options)"
    then have "set (query st ''all'' (options\<lparr>opt_since := None\<rparr>)) =
       {r \<in> set (intel st). query_where ''all'' (options\<lparr>opt_since := None\<rparr>) r}"
      using query_all_rows [of st "options\<lparr>opt_since := None\<rparr>" "''all''"] by simp
    moreover have "query_where ''all'' (options\<lparr>opt_since := None\<rparr>) x = like (tag_pattern t) (tags_column x)" for x
      using assms by (simp add: query_where_def or_null_def)
    ultimately show "set (query st ''all'' (options\<lparr>opt_since := None\<rparr>)) =
              {r \<in> set (intel st). like (tag_pattern t) (tags_column r)}"
      by simp
  qed
  show "wildcard_free t \<longrightarrow>
            like (tag_pattern t) (tags_column r) =
              includes_nocase (JSON_stringify (tags r)) (dquote # t @ [dquote])"
    by (simp add: tag_pattern_nocase tags_column_def)
  show "wildcard_free t \<and> dquote \<notin> set t \<and> t \<noteq> '','' \<and> list_all plain_text (tags r) \<longrightarrow>
            like (tag_pattern t) (tags_column r) = (\<exists>x\<in>set (tags r). list_all2 like_char t x)"
    using tag_filter_membership [of t "tags r"] by (simp add: tags_column_def)
qed

text \<open>
  C7, witness: in the smoke-test store \<open>query('all', {tag: 'FED'})\<close> returns row 2,
  whose serialized tag list \<open>["fed","macro"]\<close> contains \<open>"FED"\<close> up to case.
\<close>

theorem query_tag_filter_witness:
  "wildcard_free ''FED'' \<and>
   map entry_id (query smoke_store ''all'' \<lparr>opt_limit = None, opt_since = None, opt_tag = Some ''FED''\<rparr>) = [2] \<and>
   map tags_column (query smoke_store ''all'' \<lparr>opt_limit = None, opt_since = None, opt_tag = Some ''FED''\<rparr>)
     = [''[\"fed\",\"macro\"]''] \<and>
   includes_nocase ''[\"fed\",\"macro\"]'' ''\"FED\"'' \<and>
   set (query smoke_store ''all'' \<lparr>opt_limit = None, opt_since = None, opt_tag = Some ''FED''\<rparr>) =
     {r \<in> set (intel smoke_store). like (tag_pattern ''FED'') (tags_column r)} \<and>
   dquote \<notin> set ''FED'' \<and> ''FED'' \<noteq> '','' \<and>
   list_all plain_text (tags (intel smoke_store ! 1)) \<and>
   like (tag_pattern ''FED'') (tags_column (intel smoke_store ! 1)) \<and>
   list_all2 like_char ''FED'' (hd (tags (intel smoke_store ! 1)))"
proof -
  let ?o = "\<lparr>opt_limit = None, opt_since = None, opt_tag = Some ''FED''\<rparr>"
  have w: "wildcard_free ''FED''" by (simp add: wildcard_free_def)
  have a: "map entry_id (query smoke_store ''all'' ?o) = [2]" by code_simp
  have b: "map tags_column (query smoke_store ''all'' ?o) = [''[\"fed\",\"macro\"]'']" by code_simp
  have c: "includes_nocase ''[\"fed\",\"macro\"]'' ''\"FED\"''" by code_simp
  have l: "length (intel smoke_store) \<le> or_default 20 (opt_limit ?o)" by code_simp
  have d: "dquote \<notin> set ''FED''" "''FED'' \<noteq> '',''" by (simp_all add: dquote_def)
  have e: "list_all plain_text (tags (intel smoke_store ! 1))" by code_simp
  have f: "list_all2 like_char ''FED'' (hd (tags (intel smoke_store ! 1)))" by code_simp
  have g: "like (tag_pattern ''FED'') (tags_column (intel smoke_store ! 1))" by code_simp
  have "opt_tag ?o = Some ''FED''" "''FED'' \<noteq> []" by simp_all
  from query_tag_filter [OF this, of "''all''" "hd (intel smoke_store)" smoke_store] l
  have "set (query smoke_store ''all'' ?o) =
     {r \<in> set (intel smoke_store). like (tag_pattern ''FED'') (tags_column r)}"
    by simp
  with w a b c d e f g show ?thesis by simp
qed

text \<open>
  C7, counterexample to the claim as stated (the tag text occurs anywhere in the
  serialized list; \<open>ed\<close> inside \<open>fed\<close> over-matches): the serialized tag list of row 2,
  \<open>["fed","macro"]\<close>, contains \<open>ed\<close>, yet \<open>query('all', {tag: 'ed'})\<close> returns nothing.
\<close>

theorem query_tag_substring_counterexample:
  "map entry_id (filter (spec_tag_occurs ''ed'') (intel smoke_store)) = [2] \<and>
   map tags_column (filter (spec_tag_occurs ''ed'') (intel smoke_store)) = [''[\"fed\",\"macro\"]''] \<and>
   query smoke_store ''all'' \<lparr>opt_limit = None, opt_since = None, opt_tag = Some ''ed''\<rparr> = []"
  by code_simp

section \<open>Errors when the vector capability is missing\<close>

lemma search_ignores_vector_state:
  "search (st\<lparr>embeddingConfig := cfg, vecLoaded := b\<rparr>) text limit = search st text limit"
  by (simp add: search_def)

text \<open>
  C2, as the code has it. With no embedding provider configured, \<open>semantic\<close> and
  \<open>reindex\<close> throw \<open>Error('No embedding provider configured')\<close>; with a provider but
  without the vector extension, \<open>semantic\<close> throws
  \<open>Error('sqlite-vec not loaded - semantic search unavailable')\<close> (with an em dash) and
  \<open>reindex\<close> throws \<open>Error('sqlite-vec not loaded')\<close>. Each is a plain \<open>Error\<close>, told
  apart by its message only, and \<open>reindex\<close> leaves the store as it was. \<open>search\<close> does
  not look at the provider or the extension: it returns rows that match its LIKE
  pattern, \<open>limit\<close> of them or all.
\<close>

theorem vector_capability_errors:
  "(embeddingConfig st = None \<longrightarrow>
      semantic st q limit = Inl (Error ''No embedding provider configured'') \<and>
      reindex st = (Inl (Error ''No embedding provider configured''), st, [])) \<and>
   (embeddingConfig st \<noteq> None \<and> \<not> vecLoaded st \<longrightarrow>
      semantic st q limit =
        Inl (Error (''sqlite-vec not loaded '' @ em_dash @ '' semantic search unavailable'')) \<and>
      reindex st = (Inl (Error ''sqlite-vec not loaded''), st, [])) \<and>
   err_name (Error msg) = ''Error'' \<and>
   search (st\<lparr>embeddingConfig := cfg, vecLoaded := b\<rparr>) text limit = search st text limit \<and>
   set (search st text limit) \<subseteq> {r \<in> set (intel st). search_where (search_pattern text) r} \<and>
   length (search st text limit) =
     min limit (length (filter (search_where (search_pattern text)) (intel st)))"
proof (intro conjI)
  show "embeddingConfig st = None \<longrightarrow>
      semantic st q limit = Inl (Error ''No embedding provider configured'') \<and>
      reindex st = (Inl (Error ''No embedding provider configured''), st, [])"
    by (simp add: semantic_def reindex_def)
  show "embeddingConfig st \<noteq> None \<and> \<not> vecLoaded st \<longrightarrow>
      semantic st q limit =
        Inl (Error (''sqlite-vec not loaded '' @ em_dash @ '' semantic search unavailable'')) \<and>
      reindex st = (Inl (Error ''sqlite-vec not loaded''), st, [])"
    by (auto simp: semantic_def reindex_def)
  show "err_name (Error msg) = ''Error''"
    by (simp add: Error_def)
  show "search (st\<lparr>embeddingConfig := cfg, vecLoaded := b\<rparr>) text limit = search st text limit"
    by (rule search_ignores_vector_state)
  show "set (search st text limit) \<subseteq> {r \<in> set (intel st). search_where (search_pattern text) r}"
    unfolding search_def using set_take_subset [of limit] by (fastforce simp: set_sort_desc)
  show "length (search st text limit) =
     min limit (length (filter (search_where (search_pattern text)) (intel st)))"
    by (simp add: search_def length_sort_desc min.commute)
qed

text \<open>
  C2, witness: the smoke-test store has no provider; \<open>novec_store\<close> has a provider and
  no extension, and \<open>search('rate cut', 10)\<close> still finds row 2 there.
\<close>

theorem vector_capability_errors_witness:
  "embeddingConfig smoke_store = None \<and>
   semantic smoke_store ''rate cut'' 10 = Inl (Error ''No embedding provider configured'') \<and>
   fst (reindex smoke_store) = Inl (Error ''No embedding provider configured'') \<and>
   embeddingConfig novec_store \<noteq> None \<and> \<not> vecLoaded novec_store \<and>
   fst (reindex novec_store) = Inl (Error ''sqlite-vec not loaded'') \<and>
   semantic novec_store ''rate cut'' 10 =
     Inl (Error (''sqlite-vec not loaded '' @ em_dash @ '' semantic search unavailable'')) \<and>
   map entry_id (search novec_store ''rate cut'' 10) = [2]"
proof -
  have a: "embeddingConfig smoke_store = None"
    by (simp add: smoke_store_def add_smoke_def add_def OpenIntel_def Let_def or_null_def no_data_def)
  have b: "embeddingConfig novec_store \<noteq> None \<and> \<not> vecLoaded novec_store"
    by (simp add: novec_store_def add_smoke_def add_def OpenIntel_def Let_def or_null_def no_data_def)
  have c: "map entry_id (search novec_store ''rate cut'' 10) = [2]"
    by code_simp
  from vector_capability_errors [of smoke_store "''rate cut''" 10] a
       vector_capability_errors [of novec_store "''rate cut''" 10] b c
  show ?thesis by simp
qed

text \<open>
  C2, counterexample to the claim as stated (\<open>CapabilityError\<close>, \<open>ConfigurationError\<close>,
  never a generic error): without the extension, the error of \<open>semantic\<close> and the error
  of \<open>reindex\<close> both have the name \<open>Error\<close>.
\<close>

theorem error_kind_counterexample:
  "(case semantic novec_store ''rate cut'' 10 of Inl e \<Rightarrow> err_name e | Inr rows \<Rightarrow> ''no error'') = ''Error'' \<and>
   (case fst (reindex novec_store) of Inl e \<Rightarrow> err_name e | Inr n \<Rightarrow> ''no error'') = ''Error'' \<and>
   ''Error'' \<noteq> ''CapabilityError'' \<and> ''Error'' \<noteq> ''ConfigurationError''"
  by code_simp

section \<open>Ingestion\<close>

lemma fold_max_ge: "(s::nat) \<le> fold max xs s \<and> (\<forall>x\<in>set xs. x \<le> fold max xs s)"
proof (induction xs arbitrary: s)
  case Nil
  then show ?case by simp
next
  case (Cons x xs)
  from Cons.IH [of "max x s"] show ?case by auto
qed

lemma next_rowid_fresh: "next_rowid seq ids \<notin> set ids \<and> seq < next_rowid seq ids"
  using fold_max_ge [of seq ids] by (auto simp: next_rowid_def)

lemma embed_Inr_config: "embed cfg texts m = Inr vs \<Longrightarrow> \<exists>c. cfg = Some c"
  by (cases cfg) (simp_all add: embed_def)

lemma vec_insert_exact:
  "vec_insert st i v =
     (if vec_width st = Some (length v) \<and> i \<notin> fst ` set (intel_vec st)
      then Inr (st\<lparr>intel_vec := intel_vec st @ [(i, v)]\<rparr>)
      else if vec_width st \<noteq> Some (length v) then Inl (SqliteError ''Dimension mismatch'')
      else Inl (SqliteError ''UNIQUE constraint failed''))"
  by (simp add: vec_insert_def fits_def)

lemma add_result:
  assumes "data_title data = Some t" and "t \<noteq> []"
  shows "\<exists>row vs.
           add st now cat data =
             (Inr (entry_id row),
              st\<lparr>intel := intel st @ [row], intel_seq := entry_id row, intel_vec := vs\<rparr>) \<and>
           row = \<lparr>entry_id = next_rowid (intel_seq st) (map entry_id (intel st)),
                  category = cat, title = t,
                  body = or_null (data_body data), source = or_null (data_source data),
                  tags = or_default [] (data_tags data),
                  confidence = or_default (1 / 2) (data_confidence data),
                  actionable = (if data_actionable data = Some True then 1 else 0),
                  metadata = or_default ''{}'' (data_metadata data),
                  created_at = now, expires_at = or_null (data_expires_at data)\<rparr> \<and>
           vs = (case embeddingConfig st of
                   None \<Rightarrow> intel_vec st
                 | Some c \<Rightarrow>
                     if \<not> vecLoaded st then intel_vec st
                     else (case embed (embeddingConfig st) [embed_text t (data_body data)] Document of
                             Inl e \<Rightarrow> intel_vec st
                           | Inr vectors \<Rightarrow>
                               if vec_width st = Some (length (float32Buffer (nth_opt vectors 0))) \<and>
                                  entry_id row \<notin> fst ` set (intel_vec st)
                               then intel_vec st @ [(entry_id row, float32Buffer (nth_opt vectors 0))]
                               else intel_vec st))"
proof -
  define i where "i = next_rowid (intel_seq st) (map entry_id (intel st))"
  define row where "row = \<lparr>entry_id = i, category = cat, title = t,
                     body = or_null (data_body data), source = or_null (data_source data),
                     tags = or_default [] (data_tags data),
                     confidence = or_default (1 / 2) (data_confidence data),
                     actionable = (if data_actionable data = Some True then 1 else 0),
                     metadata = or_default ''{}'' (data_metadata data),
                     created_at = now, expires_at = or_null (data_expires_at data)\<rparr>"
  define st1 where "st1 = st\<lparr>intel := intel st @ [row], intel_seq := i\<rparr>"
  define vs where "vs = (case embeddingConfig st of
                   None \<Rightarrow> intel_vec st
                 | Some c \<Rightarrow>
                     if \<not> vecLoaded st then intel_vec st
                     else (case embed (embeddingConfig st) [embed_text t (data_body data)] Document of
                             Inl e \<Rightarrow> intel_vec st
                           | Inr vectors \<Rightarrow>
                               if vec_width st = Some (length (float32Buffer (nth_opt vectors 0))) \<and>
                                  i \<notin> fst ` set (intel_vec st)
                               then intel_vec st @ [(i, float32Buffer (nth_opt vectors 0))]
                               else intel_vec st))"
  have t: "or_null (data_title data) = Some t" using assms by (simp add: or_null_def)
  have r: "entry_id row = i" by (simp add: row_def)
  have unf: "add st now cat data = (Inr i,
              case embeddingConfig st of
                None \<Rightarrow> st1
              | Some c \<Rightarrow>
                  if \<not> vecLoaded st then st1
                  else (case embed (embeddingConfig st) [embed_text t (data_body data)] Document of
                          Inl e \<Rightarrow> st1
                        | Inr vectors \<Rightarrow>
                            (case vec_insert st1 i (float32Buffer (nth_opt vectors 0)) of
                               Inl e \<Rightarrow> st1
                             | Inr st2 \<Rightarrow> st2)))"
    unfolding add_def t Let_def i_def row_def st1_def option.case ..
  have plain: "st1 = st\<lparr>intel := intel st @ [row], intel_seq := i, intel_vec := intel_vec st\<rparr>"
    by (simp add: st1_def)
  have ins: "(case vec_insert st1 i v of Inl e \<Rightarrow> st1 | Inr st2 \<Rightarrow> st2) =
        st\<lparr>intel := intel st @ [row], intel_seq := i,
           intel_vec := (if vec_width st = Some (length v) \<and> i \<notin> fst ` set (intel_vec st)
                         then intel_vec st @ [(i, v)] else intel_vec st)\<rparr>" for v
    by (simp add: vec_insert_exact st1_def)
  have "snd (add st now cat data) = st\<lparr>intel := intel st @ [row], intel_seq := i, intel_vec := vs\<rparr>"
  proof (cases "embeddingConfig st")
    case None
    then show ?thesis by (simp add: unf vs_def plain)
  next
    case (Some c)
    show ?thesis
    proof (cases "vecLoaded st")
      case False
      with Some show ?thesis by (simp add: unf vs_def plain)
    next
      case True
      show ?thesis
      proof (cases "embed (embeddingConfig st) [embed_text t (data_body data)] Document")
        case (Inl e)
        with Some True show ?thesis by (simp add: unf vs_def plain)
      next
        case (Inr vectors)
        with Some True show ?thesis by (simp add: unf vs_def ins)
      qed
    qed
  qed
  moreover have "fst (add st now cat data) = Inr i" by (simp add: unf)
  ultimately have "add st now cat data =
      (Inr (entry_id row), st\<lparr>intel := intel st @ [row], intel_seq := entry_id row, intel_vec := vs\<rparr>)"
    by (metis r prod.collapse)
  note eq = this
  have rowd: "row = \<lparr>entry_id = next_rowid (intel_seq st) (map entry_id (intel st)),
                  category = cat, title = t,
                  body = or_null (data_body data), source = or_null (data_source data),
                  tags = or_default [] (data_tags data),
                  confidence = or_default (1 / 2) (data_confidence data),
                  actionable = (if data_actionable data = Some True then 1 else 0),
                  metadata = or_default ''{}'' (data_metadata data),
                  created_at = now, expires_at = or_null (data_expires_at data)\<rparr>"
    unfolding row_def i_def ..
  have vsd: "vs = (case embeddingConfig st of
                   None \<Rightarrow> intel_vec st
                 | Some c \<Rightarrow>
                     if \<not> vecLoaded st then intel_vec st
                     else (case embed (embeddingConfig st) [embed_text t (data_body data)] Document of
                             Inl e \<Rightarrow> intel_vec st
                           | Inr vectors \<Rightarrow>
                               if vec_width st = Some (length (float32Buffer (nth_opt vectors 0))) \<and>
                                  entry_id row \<notin> fst ` set (intel_vec st)
                               then intel_vec st @ [(entry_id row, float32Buffer (nth_opt vectors 0))]
                               else intel_vec st))"
    unfolding vs_def r ..
  show ?thesis
    apply (rule exI [of _ row], rule exI [of _ vs])
    apply (intro conjI)
      apply (rule eq)
     apply (rule rowd)
    apply (rule vsd)
    done
qed

text \<open>
  C4. Every \<open>add(category, data)\<close> with a title present (a non-empty string) returns
  the id of a new row. The row is appended to \<open>intel\<close> under an id no row had, and it
  holds what the caller gave: category and title, \<open>body\<close>, \<open>source\<close> and \<open>expires_at\<close>
  (NULL when absent or empty), the tags (none when absent), the confidence (0.5 when
  absent), \<open>actionable\<close> as 1 or 0, the metadata (\<open>{}\<close> when absent), and the time of
  the insert. It is there whatever the embedding step did, nothing but \<open>intel\<close>, its
  counter and \<open>intel_vec\<close> changes, and no error reaches the caller. With no provider
  configured, with the vector extension not loaded, when the gateway call fails, and
  when the index refuses the vector (its length is not the width of the index, or the
  id is already a key), no vector is stored; in the one remaining case exactly the
  first vector of the gateway's answer is stored under the new id.
\<close>

theorem add_persists_without_embedding:
  assumes "data_title data = Some t" and "t \<noteq> []"
  shows "\<exists>row vs.
           add st now cat data =
             (Inr (entry_id row),
              st\<lparr>intel := intel st @ [row], intel_seq := entry_id row, intel_vec := vs\<rparr>) \<and>
           row = \<lparr>entry_id = next_rowid (intel_seq st) (map entry_id (intel st)),
                  category = cat, title = t,
                  body = or_null (data_body data), source = or_null (data_source data),
                  tags = or_default [] (data_tags data),
                  confidence = or_default (1 / 2) (data_confidence data),
                  actionable = (if data_actionable data = Some True then 1 else 0),
                  metadata = or_default ''{}'' (data_metadata data),
                  created_at = now, expires_at = or_null (data_expires_at data)\<rparr> \<and>
           or_null None = None \<and> or_null (Some []) = None \<and>
           (\<forall>s. s \<noteq> [] \<longrightarrow> or_null (Some s) = Some s) \<and>
           (\<forall>d v. or_default d None = (d :: string list) \<and> or_default d (Some v) = v) \<and>
           (\<forall>d v. or_default d None = (d :: real) \<and> or_default d (Some v) = v) \<and>
           (\<forall>d v. or_default d None = (d :: string) \<and> or_default d (Some v) = v) \<and>
           entry_id row \<notin> entry_id ` set (intel st) \<and>
           (embeddingConfig st = None \<longrightarrow> vs = intel_vec st) \<and>
           (\<not> vecLoaded st \<longrightarrow> vs = intel_vec st) \<and>
           (\<forall>e. embed (embeddingConfig st) [embed_text t (data_body data)] Document = Inl e \<longrightarrow>
                vs = intel_vec st) \<and>
           (\<forall>vectors. embed (embeddingConfig st) [embed_text t (data_body data)] Document = Inr vectors \<and>
                vec_width st \<noteq> Some (length (float32Buffer (nth_opt vectors 0))) \<longrightarrow>
                vs = intel_vec st) \<and>
           (\<forall>vectors. embed (embeddingConfig st) [embed_text t (data_body data)] Document = Inr vectors \<and>
                entry_id row \<in> fst ` set (intel_vec st) \<longrightarrow>
                vs = intel_vec st) \<and>
           (\<forall>vectors. vecLoaded st \<and>
                embed (embeddingConfig st) [embed_text t (data_body data)] Document = Inr vectors \<and>
                vec_width st = Some (length (float32Buffer (nth_opt vectors 0))) \<and>
                entry_id row \<notin> fst ` set (intel_vec st) \<longrightarrow>
                vs = intel_vec st @ [(entry_id row, float32Buffer (nth_opt vectors 0))])"
proof -
  from add_result [OF assms, of st now cat] obtain row vs where
    a: "add st now cat data =
          (Inr (entry_id row), st\<lparr>intel := intel st @ [row], intel_seq := entry_id row, intel_vec := vs\<rparr>)"
    and r: "row = \<lparr>entry_id = next_rowid (intel_seq st) (map entry_id (intel st)),
                  category = cat, title = t,
                  body = or_null (data_body data), source = or_null (data_source data),
                  tags = or_default [] (data_tags data),
                  confidence = or_default (1 / 2) (data_confidence data),
                  actionable = (if data_actionable data = Some True then 1 else 0),
                  metadata = or_default ''{}'' (data_metadata data),
                  created_at = now, expires_at = or_null (data_expires_at data)\<rparr>"
    and v: "vs = (case embeddingConfig st of
                   None \<Rightarrow> intel_vec st
                 | Some c \<Rightarrow>
                     if \<not> vecLoaded st then intel_vec st
                     else (case embed (embeddingConfig st) [embed_text t (data_body data)] Document of
                             Inl e \<Rightarrow> intel_vec st
                           | Inr vectors \<Rightarrow>
                               if vec_width st = Some (length (float32Buffer (nth_opt vectors 0))) \<and>
                                  entry_id row \<notin> fst ` set (intel_vec st)
                               then intel_vec st @ [(entry_id row, float32Buffer (nth_opt vectors 0))]
                               else intel_vec st))"
    by blast
  have i: "entry_id row = next_rowid (intel_seq st) (map entry_id (intel st))"
    by (subst r) simp
  have fresh: "entry_id row \<notin> entry_id ` set (intel st)"
    using next_rowid_fresh [of "intel_seq st" "map entry_id (intel st)"] i by simp
  have c1: "embeddingConfig st = None \<longrightarrow> vs = intel_vec st"
    by (simp add: v)
  have c2: "\<not> vecLoaded st \<longrightarrow> vs = intel_vec st"
    by (simp add: v split: option.splits)
  have c3: "\<forall>e. embed (embeddingConfig st) [embed_text t (data_body data)] Document = Inl e \<longrightarrow>
                vs = intel_vec st"
    by (intro allI impI, cases "embeddingConfig st"; cases "vecLoaded st") (simp_all add: v)
  have c4: "\<forall>vectors. embed (embeddingConfig st) [embed_text t (data_body data)] Document = Inr vectors \<and>
                vec_width st \<noteq> Some (length (float32Buffer (nth_opt vectors 0))) \<longrightarrow>
                vs = intel_vec st"
    by (intro allI impI, cases "embeddingConfig st"; cases "vecLoaded st") (simp_all add: v)
  have c5: "\<forall>vectors. embed (embeddingConfig st) [embed_text t (data_body data)] Document = Inr vectors \<and>
                entry_id row \<in> fst ` set (intel_vec st) \<longrightarrow>
                vs = intel_vec st"
    by (intro allI impI, cases "embeddingConfig st"; cases "vecLoaded st") (simp_all add: v)
  have c6: "\<forall>vectors. vecLoaded st \<and>
                embed (embeddingConfig st) [embed_text t (data_body data)] Document = Inr vectors \<and>
                vec_width st = Some (length (float32Buffer (nth_opt vectors 0))) \<and>
                entry_id row \<notin> fst ` set (intel_vec st) \<longrightarrow>
                vs = intel_vec st @ [(entry_id row, float32Buffer (nth_opt vectors 0))]"
  proof (intro allI impI)
    fix vectors
    assume h: "vecLoaded st \<and>
                embed (embeddingConfig st) [embed_text t (data_body data)] Document = Inr vectors \<and>
                vec_width st = Some (length (float32Buffer (nth_opt vectors 0))) \<and>
                entry_id row \<notin> fst ` set (intel_vec st)"
    then obtain c where "embeddingConfig st = Some c"
      using embed_Inr_config by blast
    with h show "vs = intel_vec st @ [(entry_id row, float32Buffer (nth_opt vectors 0))]"
      by (simp add: v)
  qed
  have h1: "or_null None = None \<and> or_null (Some []) = None \<and>
           (\<forall>s. s \<noteq> [] \<longrightarrow> or_null (Some s) = Some s)"
    by (simp add: or_null_def)
  have h2: "\<forall>d v. or_default d None = (d :: string list) \<and> or_default d (Some v) = v"
    and h3: "\<forall>d v. or_default d None = (d :: real) \<and> or_default d (Some v) = v"
    and h4: "\<forall>d v. or_default d None = (d :: string) \<and> or_default d (Some v) = v"
    by (simp_all add: or_default_def)
  from a r h1 h2 h3 h4 fresh c1 c2 c3 c4 c5 c6 show ?thesis
    by (intro exI [of _ row] exI [of _ vs]) (intro conjI; assumption?; simp?)
qed

text \<open>
  The entry \<open>Rates on hold\<close> added to six stores. Behind the unreachable provider,
  with no provider, and without the extension the row is stored and no vector is. On a
  new database configured for dimension 3 the index refuses the gateway's vector of
  length 2. Behind the working gateway the vector is stored under id 4, also on the
  database created with width 2 and opened again with dimension 3 configured. An index
  that already holds a row under key 4 keeps it as it was.
\<close>

theorem add_persists_without_embedding_witness:
  "data_title wire = Some ''Rates on hold'' \<and> ''Rates on hold'' \<noteq> [] \<and>
   fst (add offline_store ''2024-01-01 00:00:05'' ''macro'' wire) = Inr 4 \<and>
   map entry_id (intel (snd (add offline_store ''2024-01-01 00:00:05'' ''macro'' wire))) = [1, 2, 3, 4] \<and>
   last (intel (snd (add offline_store ''2024-01-01 00:00:05'' ''macro'' wire))) =
     \<lparr>entry_id = 4, category = ''macro'', title = ''Rates on hold'',
      body = Some ''No cut in March'', source = None, tags = [], confidence = 1 / 2,
      actionable = 0, metadata = ''{}'', created_at = ''2024-01-01 00:00:05'',
      expires_at = None\<rparr> \<and>
   intel_vec (snd (add offline_store ''2024-01-01 00:00:05'' ''macro'' wire)) = [] \<and>
   fst (add smoke_store ''2024-01-01 00:00:05'' ''macro'' wire) = Inr 4 \<and>
   intel_vec (snd (add smoke_store ''2024-01-01 00:00:05'' ''macro'' wire)) = [] \<and>
   fst (add novec_store ''2024-01-01 00:00:05'' ''macro'' wire) = Inr 4 \<and>
   intel_vec (snd (add novec_store ''2024-01-01 00:00:05'' ''macro'' wire)) = [] \<and>
   dimensions wide_store = 3 \<and> vec_width wide_store = Some 3 \<and>
   fst (add wide_store ''2024-01-01 00:00:05'' ''macro'' wire) = Inr 4 \<and>
   intel_vec (snd (add wide_store ''2024-01-01 00:00:05'' ''macro'' wire)) = [] \<and>
   intel_vec toy_store = [(1, [32, 4]), (2, [42, 6]), (3, [27, 4])] \<and>
   intel_vec (snd (add toy_store ''2024-01-01 00:00:05'' ''macro'' wire)) =
     intel_vec toy_store @ [(4, [30, 6])] \<and>
   dimensions rewidth_store = 3 \<and> vec_width rewidth_store = Some 2 \<and>
   intel_vec (snd (add rewidth_store ''2024-01-01 00:00:05'' ''macro'' wire)) =
     [(1, [32, 4]), (2, [42, 6]), (3, [27, 4]), (4, [30, 6])] \<and>
   intel_vec (snd (add (toy_store\<lparr>intel_vec := [(4, [0, 0])]\<rparr>) ''2024-01-01 00:00:05'' ''macro'' wire)) =
     [(4, [0, 0])]"
proof -
  have t: "data_title wire = Some ''Rates on hold''" "''Rates on hold'' \<noteq> []"
    by (simp_all add: wire_def)
  have a: "fst (add offline_store ''2024-01-01 00:00:05'' ''macro'' wire) = Inr 4"
    by code_simp
  have b: "map entry_id (intel (snd (add offline_store ''2024-01-01 00:00:05'' ''macro'' wire))) = [1, 2, 3, 4]"
    by code_simp
  have b': "last (intel (snd (add offline_store ''2024-01-01 00:00:05'' ''macro'' wire))) =
     \<lparr>entry_id = 4, category = ''macro'', title = ''Rates on hold'',
      body = Some ''No cut in March'', source = None, tags = [], confidence = 1 / 2,
      actionable = 0, metadata = ''{}'', created_at = ''2024-01-01 00:00:05'',
      expires_at = None\<rparr>"
    by code_simp
  have c: "intel_vec (snd (add offline_store ''2024-01-01 00:00:05'' ''macro'' wire)) = []"
    by code_simp
  have d: "fst (add smoke_store ''2024-01-01 00:00:05'' ''macro'' wire) = Inr 4"
    by code_simp
  have e: "intel_vec (snd (add smoke_store ''2024-01-01 00:00:05'' ''macro'' wire)) = []"
    by code_simp
  have f: "fst (add novec_store ''2024-01-01 00:00:05'' ''macro'' wire) = Inr 4"
    by code_simp
  have g: "intel_vec (snd (add novec_store ''2024-01-01 00:00:05'' ''macro'' wire)) = []"
    by code_simp
  have h: "dimensions wide_store = 3" "vec_width wide_store = Some 3"
    "fst (add wide_store ''2024-01-01 00:00:05'' ''macro'' wire) = Inr 4"
    "intel_vec (snd (add wide_store ''2024-01-01 00:00:05'' ''macro'' wire)) = []"
    by code_simp+
  have i: "intel_vec toy_store = [(1, [32, 4]), (2, [42, 6]), (3, [27, 4])]"
    by code_simp
  have j: "dimensions rewidth_store = 3" "vec_width rewidth_store = Some 2"
    "intel_vec (snd (add rewidth_store ''2024-01-01 00:00:05'' ''macro'' wire)) =
     [(1, [32, 4]), (2, [42, 6]), (3, [27, 4]), (4, [30, 6])]"
    by code_simp+
  have k: "intel_vec (snd (add (toy_store\<lparr>intel_vec := [(4, [0, 0])]\<rparr>) ''2024-01-01 00:00:05'' ''macro'' wire)) =
     [(4, [0, 0])]"
    by code_simp
  have l: "vecLoaded toy_store"
    "embed (embeddingConfig toy_store) [embed_text ''Rates on hold'' (data_body wire)] Document = Inr [[30, 6]]"
    "vec_width toy_store = Some 2"
    "next_rowid (intel_seq toy_store) (map entry_id (intel toy_store)) = 4"
    by code_simp+
  from add_persists_without_embedding [OF t, of toy_store "''2024-01-01 00:00:05''" "''macro''"]
  obtain row vs where
    r: "add toy_store ''2024-01-01 00:00:05'' ''macro'' wire =
          (Inr (entry_id row), toy_store\<lparr>intel := intel toy_store @ [row], intel_seq := entry_id row, intel_vec := vs\<rparr>)"
    and n: "row = \<lparr>entry_id = next_rowid (intel_seq toy_store) (map entry_id (intel toy_store)),
                  category = ''macro'', title = ''Rates on hold'',
                  body = or_null (data_body wire), source = or_null (data_source wire),
                  tags = or_default [] (data_tags wire),
                  confidence = or_default (1 / 2) (data_confidence wire),
                  actionable = (if data_actionable wire = Some True then 1 else 0),
                  metadata = or_default ''{}'' (data_metadata wire),
                  created_at = ''2024-01-01 00:00:05'', expires_at = or_null (data_expires_at wire)\<rparr>"
    and v: "\<forall>vectors. vecLoaded toy_store \<and>
                embed (embeddingConfig toy_store) [embed_text ''Rates on hold'' (data_body wire)] Document = Inr vectors \<and>
                vec_width toy_store = Some (length (float32Buffer (nth_opt vectors 0))) \<and>
                entry_id row \<notin> fst ` set (intel_vec toy_store) \<longrightarrow>
                vs = intel_vec toy_store @ [(entry_id row, float32Buffer (nth_opt vectors 0))]"
    by (elim exE conjE) (rule that; assumption)
  have n': "entry_id row = 4"
    by (subst n) (simp add: l)
  have "vs = intel_vec toy_store @ [(4, [30, 6])]"
    using v [rule_format, of "[[30, 6]]"] l(1-3) i n' by (simp add: float32Buffer_def nth_opt_def)
  with r have m: "intel_vec (snd (add toy_store ''2024-01-01 00:00:05'' ''macro'' wire)) =
     intel_vec toy_store @ [(4, [30, 6])]"
    by simp
  from t a b b' c d e f g h i j k m show ?thesis by simp
qed

section \<open>Trades\<close>

lemma resolveTrade_rows:
  "length (trades_tbl (resolveTrade st now i out pnl)) = length (trades_tbl st) \<and>
   (\<forall>k<length (trades_tbl st).
      trades_tbl (resolveTrade st now i out pnl) ! k =
        (if trade_id (trades_tbl st ! k) = i
         then (trades_tbl st ! k)\<lparr>outcome := Some out, pnl_cents := Some pnl, resolved_at := Some now\<rparr>
         else trades_tbl st ! k))"
  by (simp add: resolveTrade_def)

lemma add_trades_unchanged: "trades_tbl (snd (add st now cat data)) = trades_tbl st"
proof (cases "or_null (data_title data)")
  case None
  then show ?thesis by (simp add: add_def)
next
  case (Some t)
  then have "data_title data = Some t" "t \<noteq> []"
    by (auto simp: or_null_def split: option.splits if_splits)
  from add_result [OF this, of st now cat] show ?thesis by auto
qed

lemma reindex_trades_unchanged: "trades_tbl (fst (snd (reindex st))) = trades_tbl st"
proof -
  have "reindex st = (fst (reindex st), fst (snd (reindex st)), snd (snd (reindex st)))" by simp
  from reindex_Inr_store [OF this]
  have s: "fst (snd (reindex st)) = st\<lparr>intel_vec := intel_vec (fst (snd (reindex st)))\<rparr>" .
  show ?thesis by (subst s) simp
qed

text \<open>
  C9, as the code has it. \<open>addTrade\<close> appends a row under a new id with \<open>outcome\<close>,
  \<open>pnl_cents\<close> and \<open>resolved_at\<close> NULL. \<open>resolveTrade(id, outcome, pnl_cents)\<close> sets
  the three columns of the rows with that id, whatever they held before, and leaves
  every other row as it was. \<open>add\<close> and \<open>reindex\<close> do not touch table \<open>trades\<close> (the
  read operations return no store at all).
\<close>

theorem trade_lifecycle:
  "(\<exists>row. addTrade st now data = (trade_id row, st\<lparr>trades_tbl := trades_tbl st @ [row], trades_seq := trade_id row\<rparr>) \<and>
          trade_id row \<notin> trade_id ` set (trades_tbl st) \<and>
          outcome row = None \<and> pnl_cents row = None \<and> resolved_at row = None) \<and>
   length (trades_tbl (resolveTrade st now i out pnl)) = length (trades_tbl st) \<and>
   (\<forall>k<length (trades_tbl st).
      trades_tbl (resolveTrade st now i out pnl) ! k =
        (if trade_id (trades_tbl st ! k) = i
         then (trades_tbl st ! k)\<lparr>outcome := Some out, pnl_cents := Some pnl, resolved_at := Some now\<rparr>
         else trades_tbl st ! k)) \<and>
   trades_tbl (snd (add st now cat entry_data)) = trades_tbl st \<and>
   trades_tbl (fst (snd (reindex st))) = trades_tbl st"
proof (intro conjI)
  let ?i = "next_rowid (trades_seq st) (map trade_id (trades_tbl st))"
  let ?row = "\<lparr>trade_id = ?i, ticker = data_ticker data,
                 series_ticker = or_null (data_series_ticker data),
                 direction = data_direction data, contracts = data_contracts data,
                 entry_price = data_entry_price data, exit_price = None,
                 thesis = or_null (data_thesis data), outcome = None, pnl_cents = None,
                 placed_at = now, resolved_at = None,
                 trade_metadata = or_default ''{}'' (data_trade_metadata data)\<rparr>"
  have "trade_id ?row \<notin> trade_id ` set (trades_tbl st)"
    using next_rowid_fresh [of "trades_seq st" "map trade_id (trades_tbl st)"] by simp
  then show "\<exists>row. addTrade st now data = (trade_id row, st\<lparr>trades_tbl := trades_tbl st @ [row], trades_seq := trade_id row\<rparr>) \<and>
          trade_id row \<notin> trade_id ` set (trades_tbl st) \<and>
          outcome row = None \<and> pnl_cents row = None \<and> resolved_at row = None"
    by (intro exI [of _ ?row]) (simp add: addTrade_def Let_def)
  show "length (trades_tbl (resolveTrade st now i out pnl)) = length (trades_tbl st)"
    using resolveTrade_rows by blast
  show "\<forall>k<length (trades_tbl st).
      trades_tbl (resolveTrade st now i out pnl) ! k =
        (if trade_id (trades_tbl st ! k) = i
         then (trades_tbl st ! k)\<lparr>outcome := Some out, pnl_cents := Some pnl, resolved_at := Some now\<rparr>
         else trades_tbl st ! k)"
    using resolveTrade_rows by blast
  show "trades_tbl (snd (add st now cat entry_data)) = trades_tbl st"
    by (rule add_trades_unchanged)
  show "trades_tbl (fst (snd (reindex st))) = trades_tbl st"
    by (rule reindex_trades_unchanged)
qed

text \<open>
  C9, witness: the trade of the smoke test is open after \<open>addTrade\<close> and carries
  outcome \<open>win\<close>, pnl 350 and a resolved timestamp after \<open>resolveTrade(1, 'win', 350)\<close>;
  it is then in the resolved-only listing and not in the open-only listing.
\<close>

theorem trade_lifecycle_witness:
  "map (\<lambda>t. (trade_id t, outcome t, pnl_cents t, resolved_at t)) (trades_tbl trade_open) =
     [(1, None, None, None)] \<and>
   map (\<lambda>t. (trade_id t, outcome t, pnl_cents t, resolved_at t)) (trades_tbl trade_won) =
     [(1, Some ''win'', Some 350, Some ''2024-01-02 09:30:00'')] \<and>
   length (trades_tbl trade_won) = length (trades_tbl trade_open) \<and>
   (0::nat) < length (trades_tbl trade_open) \<and>
   map trade_id (trades trade_won \<lparr>topt_limit = None, topt_since = None, topt_resolved = Some True\<rparr>) = [1] \<and>
   trades trade_won \<lparr>topt_limit = None, topt_since = None, topt_resolved = Some False\<rparr> = []"
proof -
  have a: "map (\<lambda>t. (trade_id t, outcome t, pnl_cents t, resolved_at t)) (trades_tbl trade_open) =
     [(1, None, None, None)]"
    by code_simp
  have b: "map (\<lambda>t. (trade_id t, outcome t, pnl_cents t, resolved_at t)) (trades_tbl trade_won) =
     [(1, Some ''win'', Some 350, Some ''2024-01-02 09:30:00'')]"
    by code_simp
  have c: "(0::nat) < length (trades_tbl trade_open)"
    by code_simp
  have d: "map trade_id (trades trade_won \<lparr>topt_limit = None, topt_since = None, topt_resolved = Some True\<rparr>) = [1]"
    by code_simp
  have e: "trades trade_won \<lparr>topt_limit = None, topt_since = None, topt_resolved = Some False\<rparr> = []"
    by code_simp
  have "length (trades_tbl trade_won) = length (trades_tbl trade_open)"
    unfolding trade_won_def
    by (rule trade_lifecycle [of trade_open "''2024-01-02 09:30:00''" smoke_trade 1 "''win''" 350
          "''x''" no_data, THEN conjunct2, THEN conjunct1])
  with a b c d e show ?thesis by simp
qed

text \<open>
  C9, counterexample to the claim as stated (resolved exactly once, nothing changes the
  outcome, pnl or resolved timestamp of a resolved trade): a second
  \<open>resolveTrade(1, 'loss', -100)\<close> on the trade resolved as a win rewrites all three.
\<close>

theorem resolve_once_counterexample:
  "map (\<lambda>t. (trade_id t, outcome t, pnl_cents t, resolved_at t)) (trades_tbl trade_won) =
     [(1, Some ''win'', Some 350, Some ''2024-01-02 09:30:00'')] \<and>
   map (\<lambda>t. (trade_id t, outcome t, pnl_cents t, resolved_at t)) (trades_tbl trade_rewritten) =
     [(1, Some ''loss'', Some (- 100), Some ''2024-01-03 16:00:00'')]"
  by code_simp

section \<open>Semantic search\<close>

lemma js_get_Some:
  "k \<in> fst ` set ps \<Longrightarrow> \<exists>d. js_get ps k = Some d \<and> (k, d) \<in> set ps"
proof -
  assume "k \<in> fst ` set ps"
  then have "k \<in> fst ` set (rev ps)" by simp
  then obtain d where "map_of (rev ps) k = Some d"
    by (metis map_of_eq_None_iff not_Some_eq)
  moreover from this have "(k, d) \<in> set (rev ps)" by (rule map_of_SomeD)
  ultimately show ?thesis by (auto simp: js_get_def)
qed

lemma js_get_None: "k \<notin> fst ` set ps \<Longrightarrow> js_get ps k = None"
  by (simp add: js_get_def map_of_eq_None_iff)

lemma vec_match_length: "vec_match st v k = Inr near \<Longrightarrow> length near \<le> k \<and> sorted (map snd near)"
proof -
  assume "vec_match st v k = Inr near"
  then have n: "near = take k (sort_key snd (map (\<lambda>row. (fst row, vec_distance st v (snd row))) (intel_vec st)))"
    by (auto simp: vec_match_def split: if_splits)
  have "sorted (map snd near)"
    unfolding n take_map [symmetric] by (intro sorted_wrt_take) (simp add: sorted_sort_key)
  with n show ?thesis by simp
qed

lemma vec_match_Inr:
  "vec_match st v k = Inr near \<Longrightarrow>
   near = take k (sort_key snd (map (\<lambda>row. (fst row, vec_distance st v (snd row))) (intel_vec st)))"
  by (auto simp: vec_match_def split: if_splits)

lemma semantic_rows:
  assumes "vecLoaded st"
    and "embed (embeddingConfig st) [q] Query = Inr vectors"
    and "vec_match st (float32Buffer (nth_opt vectors 0)) limit = Inr near"
  shows "\<exists>rows.
           semantic st q limit = Inr rows \<and>
           mset (map fst rows) = mset (filter (\<lambda>r. entry_id r \<in> fst ` set near) (intel st)) \<and>
           (\<forall>(r, s)\<in>set rows. \<exists>d. (entry_id r, d) \<in> set near \<and> s = 1 / (1 + d)) \<and>
           sorted_wrt (\<lambda>a b. snd b \<le> snd a) rows \<and>
           (near = [] \<longrightarrow> rows = [])"
proof -
  define sel where "sel = filter (\<lambda>r. entry_id r \<in> fst ` set near) (intel st)"
  define rows where
    "rows = (if near = [] then [] else sort_desc snd (map (\<lambda>r. (r, similarity_of near r)) sel))"
  from embed_Inr_config [OF assms(2)] obtain c where c: "embeddingConfig st = Some c" by blast
  have sem: "semantic st q limit = Inr rows"
    using assms c by (simp add: semantic_def rows_def sel_def Let_def)
  have empty_sel: "near = [] \<Longrightarrow> sel = []" by (simp add: sel_def)
  have m: "mset (map fst rows) = mset sel"
  proof (cases "near = []")
    case True
    with empty_sel show ?thesis by (simp add: rows_def)
  next
    case False
    have "mset (map fst rows) = image_mset fst (mset (sort_desc snd (map (\<lambda>r. (r, similarity_of near r)) sel)))"
      using False by (simp add: rows_def)
    also have "\<dots> = image_mset fst (mset (map (\<lambda>r. (r, similarity_of near r)) sel))"
      by (simp only: mset_sort_desc)
    also have "\<dots> = mset sel" by (simp add: image_mset.compositionality comp_def)
    finally show ?thesis .
  qed
  have sim: "\<forall>(r, s)\<in>set rows. \<exists>d. (entry_id r, d) \<in> set near \<and> s = 1 / (1 + d)"
  proof (clarify)
    fix r s assume "(r, s) \<in> set rows"
    then have "r \<in> set sel" "s = similarity_of near r"
      by (auto simp: rows_def set_sort_desc split: if_splits)
    then have "entry_id r \<in> fst ` set near" by (simp add: sel_def)
    from js_get_Some [OF this] obtain d where "js_get near (entry_id r) = Some d" "(entry_id r, d) \<in> set near"
      by blast
    with \<open>s = similarity_of near r\<close> show "\<exists>d. (entry_id r, d) \<in> set near \<and> s = 1 / (1 + d)"
      by (auto simp: similarity_of_def)
  qed
  have s2: "sorted_wrt (\<lambda>a b. snd b \<le> snd a) rows"
    by (simp add: rows_def sorted_sort_desc)
  have e: "near = [] \<longrightarrow> rows = []" by (simp add: rows_def)
  from sem m sim s2 e show ?thesis
    unfolding sel_def by blast
qed

lemma semantic_errors:
  assumes "embeddingConfig st \<noteq> None" and "vecLoaded st"
  shows "(\<forall>e. embed (embeddingConfig st) [q] Query = Inl e \<longrightarrow> semantic st q limit = Inl e) \<and>
         (\<forall>vectors e. embed (embeddingConfig st) [q] Query = Inr vectors \<and>
             vec_match st (float32Buffer (nth_opt vectors 0)) limit = Inl e \<longrightarrow>
             semantic st q limit = Inl e)"
  using assms by (auto simp: semantic_def)

text \<open>
  C6. Let a provider be configured and the vector extension be loaded.
  \<open>semantic(query, limit)\<close> calls the gateway once, in query mode, with the query text;
  an error of the gateway, and an error of the index on the vector it returned, is the
  error of the call. Otherwise \<open>near\<close>, the answer of the index, is the first \<open>limit\<close>
  pairs (id, distance) in ascending distance to the query vector, and the call returns
  rows: the entries of \<open>intel\<close> whose id is in \<open>near\<close>, each with the similarity
  \<open>1 / (1 + d)\<close> for a distance \<open>d\<close> that \<open>near\<close> gives its id, in descending
  similarity; when \<open>near\<close> is empty it returns the empty list.
\<close>

theorem semantic_by_similarity:
  assumes "embeddingConfig st \<noteq> None" and "vecLoaded st"
  shows "(\<forall>e. embed (embeddingConfig st) [q] Query = Inl e \<longrightarrow> semantic st q limit = Inl e) \<and>
         (\<forall>vectors e. embed (embeddingConfig st) [q] Query = Inr vectors \<and>
             vec_match st (float32Buffer (nth_opt vectors 0)) limit = Inl e \<longrightarrow>
             semantic st q limit = Inl e) \<and>
         (\<forall>vectors near. embed (embeddingConfig st) [q] Query = Inr vectors \<and>
             vec_match st (float32Buffer (nth_opt vectors 0)) limit = Inr near \<longrightarrow>
             near = take limit (sort_key snd
                      (map (\<lambda>row. (fst row, vec_distance st (float32Buffer (nth_opt vectors 0)) (snd row)))
                         (intel_vec st))) \<and>
             sorted (map snd near) \<and> length near \<le> limit \<and>
             (\<exists>rows.
                semantic st q limit = Inr rows \<and>
                mset (map fst rows) = mset (filter (\<lambda>r. entry_id r \<in> fst ` set near) (intel st)) \<and>
                (\<forall>(r, s)\<in>set rows. \<exists>d. (entry_id r, d) \<in> set near \<and> s = 1 / (1 + d)) \<and>
                sorted_wrt (\<lambda>a b. snd b \<le> snd a) rows \<and>
                (near = [] \<longrightarrow> rows = [])))"
proof (intro conjI allI impI)
  fix e assume "embed (embeddingConfig st) [q] Query = Inl e"
  then show "semantic st q limit = Inl e"
    using semantic_errors [OF assms] by blast
next
  fix vectors e
  assume "embed (embeddingConfig st) [q] Query = Inr vectors \<and>
          vec_match st (float32Buffer (nth_opt vectors 0)) limit = Inl e"
  then show "semantic st q limit = Inl e"
    using semantic_errors [OF assms] by blast
next
  fix vectors near
  assume a: "embed (embeddingConfig st) [q] Query = Inr vectors \<and>
          vec_match st (float32Buffer (nth_opt vectors 0)) limit = Inr near"
  then have e: "embed (embeddingConfig st) [q] Query = Inr vectors"
    and m: "vec_match st (float32Buffer (nth_opt vectors 0)) limit = Inr near"
    by simp_all
  show "near = take limit (sort_key snd
                      (map (\<lambda>row. (fst row, vec_distance st (float32Buffer (nth_opt vectors 0)) (snd row)))
                         (intel_vec st)))"
    by (rule vec_match_Inr [OF m])
  show "sorted (map snd near)" "length near \<le> limit"
    using vec_match_length [OF m] by simp_all
  show "\<exists>rows.
                semantic st q limit = Inr rows \<and>
                mset (map fst rows) = mset (filter (\<lambda>r. entry_id r \<in> fst ` set near) (intel st)) \<and>
                (\<forall>(r, s)\<in>set rows. \<exists>d. (entry_id r, d) \<in> set near \<and> s = 1 / (1 + d)) \<and>
                sorted_wrt (\<lambda>a b. snd b \<le> snd a) rows \<and>
                (near = [] \<longrightarrow> rows = [])"
    by (rule semantic_rows [OF assms(2) e m])
qed

text \<open>
  C6, witness: the toy gateway embeds \<open>Fed cut\<close> in query mode as (8, 1) (in document
  mode it would be (7, 1)); the two nearest vectors belong to rows 3 and 1, at distances
  22 and 27, and the rows come back with similarities 1/23 and 1/28. With the provider
  unreachable the error of the gateway is the error of \<open>semantic\<close>.
\<close>

theorem semantic_by_similarity_witness:
  "embeddingConfig toy_store \<noteq> None \<and> vecLoaded toy_store \<and>
   embed (embeddingConfig toy_store) [''Fed cut''] Query = Inr [[8, 1]] \<and>
   vec_match toy_store (float32Buffer (nth_opt [[8, 1]] 0)) 2 = Inr [(3, 22), (1, 27)] \<and>
   map (\<lambda>(r, s). (entry_id r, s)) (case semantic toy_store ''Fed cut'' 2 of Inl e \<Rightarrow> [] | Inr rows \<Rightarrow> rows)
     = [(3, 1 / 23), (1, 1 / 28)] \<and>
   (\<exists>rows. semantic toy_store ''Fed cut'' 2 = Inr rows) \<and>
   (\<exists>e. embed (embeddingConfig offline_store) [''Fed cut''] Query = Inl e \<and>
        semantic offline_store ''Fed cut'' 2 = Inl e)"
proof -
  have a: "vecLoaded toy_store" by code_simp
  have b: "embed (embeddingConfig toy_store) [''Fed cut''] Query = Inr [[8, 1]]" by code_simp
  from embed_Inr_config [OF b] have c: "embeddingConfig toy_store \<noteq> None" by blast
  have d: "map (\<lambda>(r, s). (entry_id r, s)) (case semantic toy_store ''Fed cut'' 2 of Inl e \<Rightarrow> [] | Inr rows \<Rightarrow> rows)
     = [(3, 1 / 23), (1, 1 / 28)]" by code_simp
  have e: "vec_match toy_store (float32Buffer (nth_opt [[8, 1]] 0)) 2 = Inr [(3, 22), (1, 27)]" by code_simp
  from semantic_by_similarity [OF c a, of "''Fed cut''" 2] b e
  have f: "\<exists>rows. semantic toy_store ''Fed cut'' 2 = Inr rows" by blast
  have g: "embed (embeddingConfig offline_store) [''Fed cut''] Query =
             Inl \<lparr>err_name = ''TypeError'', message = ''fetch failed''\<rparr>"
    by code_simp
  have h: "semantic offline_store ''Fed cut'' 2 = Inl \<lparr>err_name = ''TypeError'', message = ''fetch failed''\<rparr>"
    by code_simp
  from a b c d e f g h show ?thesis by simp
qed

section \<open>Hybrid search\<close>

lemma js_set_props: "set (js_set xs) = set xs \<and> distinct (js_set xs)"
  by (induction xs rule: js_set.induct) auto

lemma js_get_distinct:
  "distinct (map fst ps) \<Longrightarrow> (k, v) \<in> set ps \<Longrightarrow> js_get ps k = Some v"
  unfolding js_get_def by (intro map_of_is_SomeI) (simp_all add: rev_map [symmetric])

lemma fused_score_eq:
  "fused_score kw vp i =
     7 / 10 * or_default 0 (js_get vp i) + (if i \<in> fst ` set kw then 3 / 10 else 0)"
proof (cases "i \<in> fst ` set kw")
  case True
  from js_get_Some [OF this] show ?thesis using True by (auto simp: fused_score_def)
next
  case False
  from js_get_None [OF this] show ?thesis using False by (simp add: fused_score_def)
qed

lemma think_where_nocase:
  "wildcard_free q \<Longrightarrow>
   think_where (search_pattern q) r \<longleftrightarrow>
     includes_nocase (title r) q \<or> (case body r of None \<Rightarrow> False | Some b \<Rightarrow> includes_nocase b q)"
  by (simp add: think_where_def search_pattern_def like_null_def like_substring_nocase
           split: option.splits)

lemma kw_pool_props:
  "fst ` set (kw_pool st q limit) \<subseteq>
     entry_id ` {r \<in> set (intel st). think_where (search_pattern q) r} \<and>
   length (kw_pool st q limit) \<le> 2 * limit \<and>
   (\<forall>(i, w)\<in>set (kw_pool st q limit). w = 3 / 10)"
proof (intro conjI)
  show "fst ` set (kw_pool st q limit) \<subseteq>
     entry_id ` {r \<in> set (intel st). think_where (search_pattern q) r}"
    unfolding kw_pool_def using set_take_subset [of "limit * 2"] by (fastforce simp: image_iff)
  show "length (kw_pool st q limit) \<le> 2 * limit"
    by (simp add: kw_pool_def)
  show "\<forall>(i, w)\<in>set (kw_pool st q limit). w = 3 / 10"
    by (auto simp: kw_pool_def)
qed

lemma kw_pool_length:
  "length (kw_pool st q limit) =
     min (2 * limit) (length (filter (think_where (search_pattern q)) (intel st)))"
  by (simp add: kw_pool_def min.commute mult.commute)

lemma vec_pool_cases:
  "vec_pool st q limit = [] \<or>
   vecLoaded st \<and>
   (\<exists>vectors near.
      embed (embeddingConfig st) [q] Query = Inr vectors \<and>
      vec_match st (float32Buffer (nth_opt vectors 0)) (limit * 2) = Inr near \<and>
      vec_pool st q limit = map (\<lambda>row. (fst row, 1 / (1 + snd row))) near)"
proof (cases "embeddingConfig st")
  case None
  then show ?thesis by (simp add: vec_pool_def)
next
  case (Some c)
  show ?thesis
  proof (cases "vecLoaded st")
    case False
    with Some show ?thesis by (simp add: vec_pool_def)
  next
    case True
    show ?thesis
    proof (cases "embed (embeddingConfig st) [q] Query")
      case (Inl e)
      with Some True show ?thesis by (simp add: vec_pool_def)
    next
      case (Inr vectors)
      show ?thesis
      proof (cases "vec_match st (float32Buffer (nth_opt vectors 0)) (limit * 2)")
        case (Inl e)
        with Some True Inr show ?thesis by (simp add: vec_pool_def)
      next
        case near: (Inr near)
        with Some True Inr show ?thesis by (simp add: vec_pool_def)
      qed
    qed
  qed
qed

lemma vec_pool_props:
  "length (vec_pool st q limit) \<le> 2 * limit \<and>
   (embeddingConfig st = None \<or> \<not> vecLoaded st \<longrightarrow> vec_pool st q limit = []) \<and>
   (\<forall>e. embed (embeddingConfig st) [q] Query = Inl e \<longrightarrow> vec_pool st q limit = []) \<and>
   (\<forall>vectors e. embed (embeddingConfig st) [q] Query = Inr vectors \<and>
       vec_match st (float32Buffer (nth_opt vectors 0)) (limit * 2) = Inl e \<longrightarrow> vec_pool st q limit = [])"
proof (intro conjI)
  show "length (vec_pool st q limit) \<le> 2 * limit"
  proof (rule disjE [OF vec_pool_cases [of st q limit]])
    assume "vec_pool st q limit = []"
    then show ?thesis by simp
  next
    assume "vecLoaded st \<and>
      (\<exists>vectors near.
        embed (embeddingConfig st) [q] Query = Inr vectors \<and>
        vec_match st (float32Buffer (nth_opt vectors 0)) (limit * 2) = Inr near \<and>
        vec_pool st q limit = map (\<lambda>row. (fst row, 1 / (1 + snd row))) near)"
    then obtain vectors near where
      m: "vec_match st (float32Buffer (nth_opt vectors 0)) (limit * 2) = Inr near"
      and p: "vec_pool st q limit = map (\<lambda>row. (fst row, 1 / (1 + snd row))) near"
      by blast
    from vec_match_length [OF m] p show ?thesis by simp
  qed
  show "embeddingConfig st = None \<or> \<not> vecLoaded st \<longrightarrow> vec_pool st q limit = []"
    by (auto simp: vec_pool_def split: option.splits)
  show "\<forall>e. embed (embeddingConfig st) [q] Query = Inl e \<longrightarrow> vec_pool st q limit = []"
    by (auto simp: vec_pool_def split: option.splits)
  show "\<forall>vectors e. embed (embeddingConfig st) [q] Query = Inr vectors \<and>
       vec_match st (float32Buffer (nth_opt vectors 0)) (limit * 2) = Inl e \<longrightarrow> vec_pool st q limit = []"
    by (auto simp: vec_pool_def split: option.splits)
qed

lemma kw_pool_sub:
  "mset (map fst (kw_pool st q limit)) \<subseteq>#
     mset (map entry_id (filter (think_where (search_pattern q)) (intel st)))"
proof -
  let ?F = "filter (think_where (search_pattern q)) (intel st)"
  have a: "map fst (kw_pool st q limit) = take (limit * 2) (map entry_id ?F)"
    by (simp add: kw_pool_def comp_def take_map)
  have b: "mset (take n xs) \<subseteq># mset xs" for n and xs :: "nat list"
  proof -
    have "mset xs = mset (take n xs) + mset (drop n xs)"
      by (metis append_take_drop_id mset_append)
    then show ?thesis by simp
  qed
  show ?thesis unfolding a by (rule b)
qed

lemma vec_pool_forced:
  "\<forall>vectors near. vecLoaded st \<and> embed (embeddingConfig st) [q] Query = Inr vectors \<and>
       vec_match st (float32Buffer (nth_opt vectors 0)) (limit * 2) = Inr near \<longrightarrow>
       vec_pool st q limit = map (\<lambda>row. (fst row, 1 / (1 + snd row))) near"
  by (auto simp: vec_pool_def split: option.splits dest: embed_Inr_config)

lemma vec_pool_answer:
  "\<forall>vectors. vecLoaded st \<and> embed (embeddingConfig st) [q] Query = Inr vectors \<and>
       vec_width st = Some (length (float32Buffer (nth_opt vectors 0))) \<longrightarrow>
       vec_pool st q limit =
         map (\<lambda>row. (fst row, 1 / (1 + snd row)))
          (take (limit * 2)
             (sort_key snd
                (map (\<lambda>row. (fst row, vec_distance st (float32Buffer (nth_opt vectors 0)) (snd row)))
                   (intel_vec st))))"
  by (auto simp: vec_pool_def vec_match_def fits_def split: option.splits dest: embed_Inr_config)

lemma vec_pool_refused:
  "\<forall>vectors. embed (embeddingConfig st) [q] Query = Inr vectors \<and>
       vec_width st \<noteq> Some (length (float32Buffer (nth_opt vectors 0))) \<longrightarrow>
       vec_pool st q limit = []"
  by (auto simp: vec_pool_def vec_match_def fits_def split: option.splits)

lemma think_eq:
  "think st q limit =
     sort_desc snd
       (map (\<lambda>r. (r, hybrid_score_of (sort_desc snd (fuse (kw_pool st q limit) (vec_pool st q limit))) r))
          (filter (\<lambda>r. entry_id r \<in>
                     set (map fst (take limit (sort_desc snd (fuse (kw_pool st q limit) (vec_pool st q limit))))))
             (intel st)))"
  by (simp add: think_def Let_def)

lemma scored_props:
  fixes kw vp :: "(nat \<times> real) list"
  defines "scored \<equiv> sort_desc snd (fuse kw vp)"
  shows "distinct (map fst scored)"
    and "fst ` set scored = fst ` set kw \<union> fst ` set vp"
    and "(i, s) \<in> set scored \<Longrightarrow> s = fused_score kw vp i"
    and "i \<in> fst ` set scored \<Longrightarrow> js_get scored i = Some (fused_score kw vp i)"
    and "sorted_wrt (\<lambda>a b. snd b \<le> snd a) scored"
    and "length scored = card (fst ` set kw \<union> fst ` set vp)"
proof -
  let ?ids = "js_set (map fst kw @ map fst vp)"
  have m: "mset scored = mset (fuse kw vp)" by (simp add: scored_def mset_sort_desc)
  have f: "map fst (fuse kw vp) = ?ids" by (simp add: fuse_def comp_def)
  have "mset (map fst scored) = mset ?ids"
    using m f by (metis mset_map)
  then show d: "distinct (map fst scored)"
    using js_set_props [of "map fst kw @ map fst vp"] by (metis mset_eq_imp_distinct_iff)
  have se: "set scored = set (fuse kw vp)" using m by (metis set_mset_mset)
  show u: "fst ` set scored = fst ` set kw \<union> fst ` set vp"
    using se f js_set_props [of "map fst kw @ map fst vp"] by (metis image_set set_append set_map)
  show e: "s = fused_score kw vp i" if "(i, s) \<in> set scored" for i s
    using that se by (auto simp: fuse_def)
  show "js_get scored i = Some (fused_score kw vp i)" if "i \<in> fst ` set scored"
  proof -
    from that obtain s where "(i, s) \<in> set scored" by auto
    with e [OF this] js_get_distinct [OF d] show ?thesis by blast
  qed
  show "sorted_wrt (\<lambda>a b. snd b \<le> snd a) scored"
    by (simp add: scored_def sorted_sort_desc)
  have "length scored = length (map fst scored)" by simp
  also have "\<dots> = card (set (map fst scored))" using d by (simp only: distinct_card)
  also have "\<dots> = card (fst ` set kw \<union> fst ` set vp)" using u by simp
  finally show "length scored = card (fst ` set kw \<union> fst ` set vp)" .
qed

lemma think_rows:
  fixes st q limit
  defines "kw \<equiv> kw_pool st q limit" and "vp \<equiv> vec_pool st q limit"
  shows "(\<forall>(r, s)\<in>set (think st q limit).
            r \<in> set (intel st) \<and> entry_id r \<in> fst ` set kw \<union> fst ` set vp \<and>
            s = fused_score kw vp (entry_id r)) \<and>
         sorted_wrt (\<lambda>a b. snd b \<le> snd a) (think st q limit) \<and>
         (\<exists>top rest.
            distinct (top @ rest) \<and> set (top @ rest) = fst ` set kw \<union> fst ` set vp \<and>
            length top = min limit (card (fst ` set kw \<union> fst ` set vp)) \<and>
            (\<forall>i\<in>set top. \<forall>j\<in>set rest. fused_score kw vp j \<le> fused_score kw vp i) \<and>
            mset (map fst (think st q limit)) = mset (filter (\<lambda>r. entry_id r \<in> set top) (intel st)))"
proof -
  define scored where "scored = sort_desc snd (fuse kw vp)"
  define top where "top = map fst (take limit scored)"
  define rest where "rest = map fst (drop limit scored)"
  define sel where "sel = filter (\<lambda>r. entry_id r \<in> set top) (intel st)"
  note sp = scored_props [where kw = kw and vp = vp, folded scored_def]
  have th: "think st q limit = sort_desc snd (map (\<lambda>r. (r, hybrid_score_of scored r)) sel)"
    unfolding think_eq sel_def top_def scored_def kw_def vp_def ..
  have tr: "top @ rest = map fst scored"
    by (simp add: top_def rest_def map_append [symmetric] del: map_append)
  have top_sub: "set top \<subseteq> fst ` set scored"
    using tr by (metis set_append set_map Un_upper1)
  have rows: "\<forall>(r, s)\<in>set (think st q limit).
            r \<in> set (intel st) \<and> entry_id r \<in> fst ` set kw \<union> fst ` set vp \<and>
            s = fused_score kw vp (entry_id r)"
  proof clarify
    fix r s assume "(r, s) \<in> set (think st q limit)"
    then have r: "r \<in> set sel" and s: "s = hybrid_score_of scored r"
      by (auto simp: th set_sort_desc)
    from r have i: "r \<in> set (intel st)" and t: "entry_id r \<in> set top" by (simp_all add: sel_def)
    from t top_sub have m: "entry_id r \<in> fst ` set scored" by blast
    from sp(4) [OF m] s have "s = fused_score kw vp (entry_id r)"
      by (simp add: hybrid_score_of_def or_default_def)
    with i m sp(2) show "r \<in> set (intel st) \<and> entry_id r \<in> fst ` set kw \<union> fst ` set vp \<and>
            s = fused_score kw vp (entry_id r)"
      by simp
  qed
  have sorted: "sorted_wrt (\<lambda>a b. snd b \<le> snd a) (think st q limit)"
    by (simp add: th sorted_sort_desc)
  have d: "distinct (top @ rest)" using tr sp(1) by simp
  have u: "set (top @ rest) = fst ` set kw \<union> fst ` set vp"
    using tr sp(2) by (metis set_map)
  have l: "length top = min limit (card (fst ` set kw \<union> fst ` set vp))"
    by (simp add: top_def sp(6) min.commute)
  have ord: "\<forall>i\<in>set top. \<forall>j\<in>set rest. fused_score kw vp j \<le> fused_score kw vp i"
  proof (intro ballI)
    fix i j assume "i \<in> set top" "j \<in> set rest"
    then obtain s s' where a: "(i, s) \<in> set (take limit scored)" and b: "(j, s') \<in> set (drop limit scored)"
      by (auto simp: top_def rest_def)
    from sorted_wrt_take_drop [OF sp(5) a b] have "s' \<le> s" by simp
    moreover from a have "s = fused_score kw vp i" by (intro sp(3)) (rule in_set_takeD)
    moreover from b have "s' = fused_score kw vp j" by (intro sp(3)) (rule in_set_dropD)
    ultimately show "fused_score kw vp j \<le> fused_score kw vp i" by simp
  qed
  have "mset (map fst (think st q limit)) =
          image_mset fst (mset (sort_desc snd (map (\<lambda>r. (r, hybrid_score_of scored r)) sel)))"
    by (simp add: th)
  also have "\<dots> = image_mset fst (mset (map (\<lambda>r. (r, hybrid_score_of scored r)) sel))"
    by (simp only: mset_sort_desc)
  also have "\<dots> = mset sel" by (simp add: image_mset.compositionality comp_def)
  finally have ms: "mset (map fst (think st q limit)) = mset (filter (\<lambda>r. entry_id r \<in> set top) (intel st))"
    by (simp add: sel_def)
  from rows sorted d u l ord ms show ?thesis by blast
qed

text \<open>
  C1, as the code has it. For \<open>think(query, limit)\<close>: the keyword pool holds ids of
  rows whose title or body matches the LIKE pattern \<open>%query%\<close> (for a query without
  \<open>%\<close> and \<open>_\<close>: contains the query up to ASCII case), \<open>2 * limit\<close> of them or all
  when there are fewer, each with weight 0.3, and no row counted more often than it
  matches. The semantic pool has at most \<open>2 * limit\<close> ids; it is empty when no provider
  is configured, when the extension is not loaded, when the gateway call fails and when
  the index query fails (the query vector has not the width of the index); in every
  other case, that is whenever the extension is loaded, the gateway answers and the
  index takes the query vector, it is the answer of the index to the query-mode vector
  for \<open>2 * limit\<close>: the \<open>2 * limit\<close> stored vectors nearest to it, in ascending
  distance, each id scored \<open>1 / (1 + distance)\<close>. The score
  of an id is \<open>0.7 * semantic score + keyword weight\<close>, the semantic score taken as 0
  outside the semantic pool and the keyword weight as 0.3 inside the keyword pool, 0
  outside. Every row returned is an entry whose id is in one of the pools and carries
  the score of its id; the rows are in descending score; and the ids of the union of the
  pools split into \<open>top\<close>, \<open>limit\<close> of them or all, and \<open>rest\<close>, no id of \<open>rest\<close>
  scoring above an id of \<open>top\<close>, such that the rows returned are the entries with an
  id in \<open>top\<close>. \<open>think\<close> returns a list on every input: it never throws.
\<close>

theorem think_additive_fusion:
  "length (kw_pool st q limit) =
     min (2 * limit) (length (filter (think_where (search_pattern q)) (intel st))) \<and>
   fst ` set (kw_pool st q limit) \<subseteq>
     entry_id ` {r \<in> set (intel st). think_where (search_pattern q) r} \<and>
   length (kw_pool st q limit) \<le> 2 * limit \<and>
   (\<forall>(i, w)\<in>set (kw_pool st q limit). w = 3 / 10) \<and>
   (wildcard_free q \<longrightarrow>
      (\<forall>r. think_where (search_pattern q) r \<longleftrightarrow>
         includes_nocase (title r) q \<or>
         (case body r of None \<Rightarrow> False | Some b \<Rightarrow> includes_nocase b q))) \<and>
   length (vec_pool st q limit) \<le> 2 * limit \<and>
   (embeddingConfig st = None \<or> \<not> vecLoaded st \<longrightarrow> vec_pool st q limit = []) \<and>
   (\<forall>e. embed (embeddingConfig st) [q] Query = Inl e \<longrightarrow> vec_pool st q limit = []) \<and>
   (\<forall>vectors e. embed (embeddingConfig st) [q] Query = Inr vectors \<and>
       vec_match st (float32Buffer (nth_opt vectors 0)) (limit * 2) = Inl e \<longrightarrow>
       vec_pool st q limit = []) \<and>
   (vec_pool st q limit = [] \<or>
    vecLoaded st \<and>
    (\<exists>vectors near.
       embed (embeddingConfig st) [q] Query = Inr vectors \<and>
       vec_match st (float32Buffer (nth_opt vectors 0)) (limit * 2) = Inr near \<and>
       vec_pool st q limit = map (\<lambda>row. (fst row, 1 / (1 + snd row))) near)) \<and>
   (\<forall>i. fused_score (kw_pool st q limit) (vec_pool st q limit) i =
      7 / 10 * or_default 0 (js_get (vec_pool st q limit) i) +
      (if i \<in> fst ` set (kw_pool st q limit) then 3 / 10 else 0)) \<and>
   (\<forall>(r, s)\<in>set (think st q limit).
      r \<in> set (intel st) \<and>
      entry_id r \<in> fst ` set (kw_pool st q limit) \<union> fst ` set (vec_pool st q limit) \<and>
      s = fused_score (kw_pool st q limit) (vec_pool st q limit) (entry_id r)) \<and>
   sorted_wrt (\<lambda>a b. snd b \<le> snd a) (think st q limit) \<and>
   (\<exists>top rest.
      distinct (top @ rest) \<and>
      set (top @ rest) = fst ` set (kw_pool st q limit) \<union> fst ` set (vec_pool st q limit) \<and>
      length top =
        min limit (card (fst ` set (kw_pool st q limit) \<union> fst ` set (vec_pool st q limit))) \<and>
      (\<forall>i\<in>set top. \<forall>j\<in>set rest.
         fused_score (kw_pool st q limit) (vec_pool st q limit) j
           \<le> fused_score (kw_pool st q limit) (vec_pool st q limit) i) \<and>
      mset (map fst (think st q limit)) = mset (filter (\<lambda>r. entry_id r \<in> set top) (intel st))) \<and>
   mset (map fst (kw_pool st q limit)) \<subseteq>#
     mset (map entry_id (filter (think_where (search_pattern q)) (intel st))) \<and>
   (\<forall>vectors near. vecLoaded st \<and> embed (embeddingConfig st) [q] Query = Inr vectors \<and>
       vec_match st (float32Buffer (nth_opt vectors 0)) (limit * 2) = Inr near \<longrightarrow>
       vec_pool st q limit = map (\<lambda>row. (fst row, 1 / (1 + snd row))) near) \<and>
   (\<forall>vectors. vecLoaded st \<and> embed (embeddingConfig st) [q] Query = Inr vectors \<and>
       vec_width st = Some (length (float32Buffer (nth_opt vectors 0))) \<longrightarrow>
       vec_pool st q limit =
         map (\<lambda>row. (fst row, 1 / (1 + snd row)))
          (take (limit * 2)
             (sort_key snd
                (map (\<lambda>row. (fst row, vec_distance st (float32Buffer (nth_opt vectors 0)) (snd row)))
                   (intel_vec st))))) \<and>
   (\<forall>vectors. embed (embeddingConfig st) [q] Query = Inr vectors \<and>
       vec_width st \<noteq> Some (length (float32Buffer (nth_opt vectors 0))) \<longrightarrow>
       vec_pool st q limit = [])"
proof -
  note k = kw_pool_props [of st q limit]
  note v = vec_pool_props [of st q limit]
  note t = think_rows [of st q limit]
  have w: "wildcard_free q \<longrightarrow>
      (\<forall>r. think_where (search_pattern q) r \<longleftrightarrow>
         includes_nocase (title r) q \<or>
         (case body r of None \<Rightarrow> False | Some b \<Rightarrow> includes_nocase b q))"
    using think_where_nocase by blast
  have f: "\<forall>i. fused_score (kw_pool st q limit) (vec_pool st q limit) i =
      7 / 10 * or_default 0 (js_get (vec_pool st q limit) i) +
      (if i \<in> fst ` set (kw_pool st q limit) then 3 / 10 else 0)"
    by (simp only: fused_score_eq) simp
  show ?thesis
    apply (intro conjI)
                 apply (rule kw_pool_length)
                apply (rule k [THEN conjunct1])
               apply (rule k [THEN conjunct2, THEN conjunct1])
              apply (rule k [THEN conjunct2, THEN conjunct2])
             apply (rule w)
            apply (rule v [THEN conjunct1])
           apply (rule v [THEN conjunct2, THEN conjunct1])
          apply (rule v [THEN conjunct2, THEN conjunct2, THEN conjunct1])
         apply (rule v [THEN conjunct2, THEN conjunct2, THEN conjunct2])
        apply (rule vec_pool_cases)
       apply (rule f)
      apply (rule t [THEN conjunct1])
     apply (rule t [THEN conjunct2, THEN conjunct1])
    apply (rule t [THEN conjunct2, THEN conjunct2])
    apply (rule kw_pool_sub)
    apply (rule vec_pool_forced)
    apply (rule vec_pool_answer)
    apply (rule vec_pool_refused)
    done
qed

text \<open>
  C1, witness. In the toy store the query \<open>rate\<close> is embedded in query mode as
  (5, 0), the extension is loaded and the index has width 2, so the semantic pool is
  forced: for \<open>think('rate', 2)\<close> it is rows 3, 1 and 2 at distances 26, 31 and 43, and
  the keyword pool is row 2; row 2 is in both pools and scores 0.7 / 44 + 0.3, row 3
  scores 0.7 / 27; these two are returned in this order. With limit 1 the semantic pool
  is rows 3 and 1 and row 2 alone is returned; with limit 3 all three rows are. With
  the provider unreachable the semantic pool is empty and row 2 comes back with the
  keyword weight alone.
\<close>

theorem think_additive_fusion_witness:
  "wildcard_free ''rate'' \<and>
   kw_pool toy_store ''rate'' 2 = [(2, 3 / 10)] \<and>
   vecLoaded toy_store \<and>
   embed (embeddingConfig toy_store) [''rate''] Query = Inr [[5, 0]] \<and>
   vec_width toy_store = Some 2 \<and>
   intel_vec toy_store = [(1, [32, 4]), (2, [42, 6]), (3, [27, 4])] \<and>
   vec_pool toy_store ''rate'' 2 = [(3, 1 / 27), (1, 1 / 32), (2, 1 / 44)] \<and>
   map (\<lambda>(r, s). (entry_id r, s)) (think toy_store ''rate'' 2) = [(2, 139 / 440), (3, 7 / 270)] \<and>
   fused_score (kw_pool toy_store ''rate'' 2) (vec_pool toy_store ''rate'' 2) 2 = 7 / 10 * (1 / 44) + 3 / 10 \<and>
   vec_pool toy_store ''rate'' 1 = [(3, 1 / 27), (1, 1 / 32)] \<and>
   map (\<lambda>(r, s). (entry_id r, s)) (think toy_store ''rate'' 1) = [(2, 3 / 10)] \<and>
   map (\<lambda>(r, s). (entry_id r, s)) (think toy_store ''rate'' 3) =
     [(2, 139 / 440), (3, 7 / 270), (1, 7 / 320)] \<and>
   (\<exists>e. embed (embeddingConfig offline_store) [''rate''] Query = Inl e) \<and>
   vec_pool offline_store ''rate'' 2 = [] \<and>
   map (\<lambda>(r, s). (entry_id r, s)) (think offline_store ''rate'' 2) = [(2, 3 / 10)]"
proof -
  have a: "wildcard_free ''rate''"
    by (simp add: wildcard_free_def)
  have b: "kw_pool toy_store ''rate'' 2 = [(2, 3 / 10)]"
    by code_simp
  have l: "vecLoaded toy_store"
    "embed (embeddingConfig toy_store) [''rate''] Query = Inr [[5, 0]]"
    "vec_width toy_store = Some 2"
    "intel_vec toy_store = [(1, [32, 4]), (2, [42, 6]), (3, [27, 4])]"
    by code_simp+
  have n: "map (\<lambda>row. (fst row, 1 / (1 + snd row)))
          (take (2 * 2)
             (sort_key snd
                (map (\<lambda>row. (fst row, vec_distance toy_store (float32Buffer (nth_opt [[5, 0]] 0)) (snd row)))
                   (intel_vec toy_store)))) = [(3, 1 / 27), (1, 1 / 32), (2, 1 / 44)]"
    "map (\<lambda>row. (fst row, 1 / (1 + snd row)))
          (take (1 * 2)
             (sort_key snd
                (map (\<lambda>row. (fst row, vec_distance toy_store (float32Buffer (nth_opt [[5, 0]] 0)) (snd row)))
                   (intel_vec toy_store)))) = [(3, 1 / 27), (1, 1 / 32)]"
    by code_simp+
  have w: "vec_width toy_store = Some (length (float32Buffer (nth_opt [[5, 0 :: real]] 0)))"
    by (simp add: l float32Buffer_def nth_opt_def)
  note t = think_additive_fusion [of toy_store "''rate''" 2]
  note ans = t [THEN conjunct2, THEN conjunct2, THEN conjunct2, THEN conjunct2, THEN conjunct2,
                THEN conjunct2, THEN conjunct2, THEN conjunct2, THEN conjunct2, THEN conjunct2,
                THEN conjunct2, THEN conjunct2, THEN conjunct2, THEN conjunct2, THEN conjunct2,
                THEN conjunct2, THEN conjunct1, rule_format, OF conjI [OF l(1) conjI [OF l(2) w]]]
  have c: "vec_pool toy_store ''rate'' 2 = [(3, 1 / 27), (1, 1 / 32), (2, 1 / 44)]"
    using ans n(1) by simp
  have c1: "vec_pool toy_store ''rate'' 1 = [(3, 1 / 27), (1, 1 / 32)]"
    by code_simp
  have d: "map (\<lambda>(r, s). (entry_id r, s)) (think toy_store ''rate'' 2) = [(2, 139 / 440), (3, 7 / 270)]"
    by code_simp
  have d1: "map (\<lambda>(r, s). (entry_id r, s)) (think toy_store ''rate'' 1) = [(2, 3 / 10)]"
    by code_simp
  have d3: "map (\<lambda>(r, s). (entry_id r, s)) (think toy_store ''rate'' 3) =
     [(2, 139 / 440), (3, 7 / 270), (1, 7 / 320)]"
    by code_simp
  have e: "embed (embeddingConfig offline_store) [''rate''] Query =
             Inl \<lparr>err_name = ''TypeError'', message = ''fetch failed''\<rparr>"
    by code_simp
  have g: "map (\<lambda>(r, s). (entry_id r, s)) (think offline_store ''rate'' 2) = [(2, 3 / 10)]"
    by code_simp
  have "fused_score (kw_pool toy_store ''rate'' 2) (vec_pool toy_store ''rate'' 2) 2 =
      7 / 10 * or_default 0 (js_get (vec_pool toy_store ''rate'' 2) 2) +
      (if 2 \<in> fst ` set (kw_pool toy_store ''rate'' 2) then 3 / 10 else 0)"
    by (rule t [THEN conjunct2, THEN conjunct2, THEN conjunct2, THEN conjunct2, THEN conjunct2, THEN conjunct2, THEN conjunct2, THEN conjunct2, THEN conjunct2, THEN conjunct2, THEN conjunct1, rule_format])
  then have f: "fused_score (kw_pool toy_store ''rate'' 2) (vec_pool toy_store ''rate'' 2) 2 =
      7 / 10 * (1 / 44) + 3 / 10"
    by (simp add: b c js_get_def or_default_def)
  have h: "vec_pool offline_store ''rate'' 2 = []"
    by (rule think_additive_fusion [of offline_store "''rate''" 2, THEN conjunct2, THEN conjunct2, THEN conjunct2, THEN conjunct2, THEN conjunct2, THEN conjunct2, THEN conjunct2, THEN conjunct1, rule_format, OF e])
  from a b l c c1 d d1 d3 e f g h show ?thesis by simp
qed

text \<open>
  C1, counterexample to the claim as stated (a keyword pool by substring match): no
  row of the smoke-test store contains \<open>F_d\<close> in its title or body, not even up to
  case, yet the keyword pool of \<open>think('F_d', 10)\<close> holds row 2 (body
  \<open>Fed rate cut expected\<close>) and the call returns it with score 0.3.
\<close>

theorem think_substring_counterexample:
  "filter (\<lambda>r. includes_nocase (title r) ''F_d'' \<or>
               (case body r of None \<Rightarrow> False | Some b \<Rightarrow> includes_nocase b ''F_d''))
     (intel smoke_store) = [] \<and>
   kw_pool smoke_store ''F_d'' 10 = [(2, 3 / 10)] \<and>
   map (\<lambda>(r, s). (entry_id r, s)) (think smoke_store ''F_d'' 10) = [(2, 3 / 10)]"
  by code_simp

section \<open>Keyword search\<close>

lemma search_where_nocase:
  "wildcard_free text \<Longrightarrow>
   search_where (search_pattern text) r \<longleftrightarrow>
     includes_nocase (title r) text \<or>
     (case body r of None \<Rightarrow> False | Some b \<Rightarrow> includes_nocase b text) \<or>
     (case source r of None \<Rightarrow> False | Some s \<Rightarrow> includes_nocase s text)"
  by (simp add: search_where_def search_pattern_def like_null_def like_substring_nocase
           split: option.splits)

text \<open>
  C3, as the code has it. \<open>search(text, limit)\<close> returns rows of \<open>intel\<close> whose title,
  body or source matches the LIKE pattern \<open>%text%\<close>; it returns \<open>limit\<close> of them, or all
  when there are fewer; they are ordered newest first; and every matching row left out
  is no newer than any row returned. When the text has neither \<open>%\<close> nor \<open>_\<close>, a row
  matches exactly when its title, body or source contains the text up to ASCII case (a
  NULL body or source never matches).
\<close>

theorem search_like_newest_first:
  "set (search st text limit) \<subseteq> {r \<in> set (intel st). search_where (search_pattern text) r} \<and>
   length (search st text limit) =
     min limit (length (filter (search_where (search_pattern text)) (intel st))) \<and>
   sorted_wrt (\<lambda>a b. created_at b \<le> created_at a) (search st text limit) \<and>
   (\<exists>rest. mset (search st text limit @ rest) =
              mset (filter (search_where (search_pattern text)) (intel st)) \<and>
           (\<forall>x\<in>set (search st text limit). \<forall>y\<in>set rest. created_at y \<le> created_at x)) \<and>
   (wildcard_free text \<longrightarrow>
      (\<forall>r. search_where (search_pattern text) r \<longleftrightarrow>
         includes_nocase (title r) text \<or>
         (case body r of None \<Rightarrow> False | Some b \<Rightarrow> includes_nocase b text) \<or>
         (case source r of None \<Rightarrow> False | Some s \<Rightarrow> includes_nocase s text)))"
proof (intro conjI)
  show "set (search st text limit) \<subseteq> {r \<in> set (intel st). search_where (search_pattern text) r}"
    unfolding search_def using set_take_subset [of limit] by (fastforce simp: set_sort_desc)
  show "length (search st text limit) =
     min limit (length (filter (search_where (search_pattern text)) (intel st)))"
    by (simp add: search_def length_sort_desc min.commute)
  show "sorted_wrt (\<lambda>a b. created_at b \<le> created_at a) (search st text limit)"
    unfolding search_def by (rule sorted_wrt_take [OF sorted_sort_desc])
  show "\<exists>rest. mset (search st text limit @ rest) =
              mset (filter (search_where (search_pattern text)) (intel st)) \<and>
           (\<forall>x\<in>set (search st text limit). \<forall>y\<in>set rest. created_at y \<le> created_at x)"
    unfolding search_def by (rule top_of_sorted)
  show "wildcard_free text \<longrightarrow>
      (\<forall>r. search_where (search_pattern text) r \<longleftrightarrow>
         includes_nocase (title r) text \<or>
         (case body r of None \<Rightarrow> False | Some b \<Rightarrow> includes_nocase b text) \<or>
         (case source r of None \<Rightarrow> False | Some s \<Rightarrow> includes_nocase s text))"
    using search_where_nocase by blast
qed

text \<open>
  C3, witness: in the smoke-test store \<open>search('a', 2)\<close> has three matching rows and
  returns the two newest, ids 3 and 2; the text has no wildcard, and the row left out,
  id 1, contains it.
\<close>

theorem search_like_newest_first_witness:
  "wildcard_free ''a'' \<and>
   map entry_id (search smoke_store ''a'' 2) = [3, 2] \<and>
   length (search smoke_store ''a'' 2) = 2 \<and>
   sorted_wrt (\<lambda>a b. created_at b \<le> created_at a) (search smoke_store ''a'' 2) \<and>
   search_where (search_pattern ''a'') (hd (intel smoke_store)) \<and>
   includes_nocase (title (hd (intel smoke_store))) ''a''"
proof -
  have w: "wildcard_free ''a''"
    by (simp add: wildcard_free_def)
  have ids: "map entry_id (search smoke_store ''a'' 2) = [3, 2]"
    by code_simp
  have len: "length (search smoke_store ''a'' 2) = 2"
    using ids by (metis length_map length_Cons list.size(3) numeral_2_eq_2)
  have inc: "includes_nocase (title (hd (intel smoke_store))) ''a''"
    by code_simp
  from search_like_newest_first [of smoke_store "''a''" 2] w inc
  show ?thesis using ids len by blast
qed

text \<open>
  C3, counterexample to the claim as stated (case-sensitive substring): in the
  smoke-test store no row contains \<open>aapl\<close> in title, body or source, yet
  \<open>search('aapl', 10)\<close> returns the row titled \<open>Test signal\<close>, whose body is
  \<open>AAPL looking strong\<close>.
\<close>

theorem search_case_sensitive_counterexample:
  "filter (spec_contains ''aapl'') (intel smoke_store) = [] \<and>
   map title (search smoke_store ''aapl'' 10) = [''Test signal''] \<and>
   map body (search smoke_store ''aapl'' 10) = [Some ''AAPL looking strong'']"
  by code_simp

text \<open>
  C10. \<open>%\<close> and \<open>_\<close> in the caller's text act as LIKE wildcards. In the smoke-test
  store no row contains \<open>A_P\<close> in title, body or source, yet \<open>search('A_P', 10)\<close>
  returns row 1 (\<open>_\<close> stands for the second A of AAPL); the keyword pool of
  \<open>think('B%K', 10)\<close> holds row 3 (body \<open>BTC above 70K\<close>); and the tag filter of
  \<open>query('all', {tag: 'f_d'})\<close> selects row 2 (tag \<open>fed\<close>), whose serialized tag list
  does not contain \<open>f_d\<close>.
\<close>

theorem like_wildcards_reach_the_engine:
  "CHR ''_'' \<in> set ''A_P'' \<and>
   filter (spec_contains ''A_P'') (intel smoke_store) = [] \<and>
   map entry_id (search smoke_store ''A_P'' 10) = [1] \<and>
   CHR ''%'' \<in> set ''B%K'' \<and>
   filter (spec_contains ''B%K'') (intel smoke_store) = [] \<and>
   map fst (kw_pool smoke_store ''B%K'' 10) = [3] \<and>
   filter (spec_tag_occurs ''f_d'') (intel smoke_store) = [] \<and>
   map entry_id (query smoke_store ''all''
     \<lparr>opt_limit = None, opt_since = None, opt_tag = Some ''f_d''\<rparr>) = [2]"
  by code_simp

end
